theory Spec2Isabelle
  imports Complex_Main "HOL-Library.Char_ord" "HOL-Library.List_Lexorder"
begin

section \<open>JavaScript numbers and strings\<close>

text \<open>
  The tracker is JavaScript, and its numbers are doubles. A number that holds whole
  seconds or milliseconds is modelled by the \<open>int\<close> it denotes. In \<open>database.js\<close> the
  divisions, the sum of the totals and the percentage are modelled with binary64
  rounding (next section): there the numbers come out of the table and can be of any
  size. The time values of \<open>main.js\<close> are clock readings, far below \<open>2^53\<close>, where a
  double holds every integer (\<open>fl_of_int_exact\<close>) and \<open>Math.floor(a / 1000)\<close> is
  \<open>a div 1000\<close> (\<open>floor_js_div_exact\<close>, for \<open>a \<ge> 0\<close>; a negative difference is negative
  either way and fails the test \<open>usageTime > 0\<close>).
\<close>

definition digit_char :: "nat \<Rightarrow> char" where
  "digit_char d = ''0123456789'' ! d"

fun digits :: "nat \<Rightarrow> string" where
  "digits n = (if n < 10 then [digit_char n] else digits (n div 10) @ [digit_char (n mod 10)])"

declare digits.simps [simp del]

text \<open>
  \<open>String(n)\<close>, as a template literal \<open>`${n}`\<close> applies it to an integer: its decimal
  digits. (So it is for every integer below \<open>2^53\<close>; a larger double is printed with the
  fewest digits that tell it from its neighbours, and from \<open>10^21\<close> on with an exponent.)
\<close>

definition js_string_of_int :: "int \<Rightarrow> string" where
  "js_string_of_int i = (if i < 0 then CHR ''-'' # digits (nat (- i)) else digits (nat i))"

text \<open>The remainder operator \<open>%\<close>: the result has the sign of the dividend.\<close>

definition js_rem :: "int \<Rightarrow> int \<Rightarrow> int" where
  "js_rem a b = (if 0 \<le> a then a mod \<bar>b\<bar> else - ((- a) mod \<bar>b\<bar>))"

section \<open>Doubles\<close>

text \<open>
  \<open>a / b\<close> and \<open>a * b\<close> on JavaScript numbers are the exact quotient and product rounded
  to the nearest binary64 value, ties to the even significand. A double is modelled by
  the rational it denotes; \<open>fl\<close> rounds a rational to 53 significant bits. (Overflow and
  subnormals are out of reach: the operands are integers of at most 64 bits.)
\<close>

fun bit_length :: "nat \<Rightarrow> nat" where
  "bit_length n = (if n = 0 then 0 else Suc (bit_length (n div 2)))"

declare bit_length.simps [simp del]

definition pow2 :: "int \<Rightarrow> rat" where
  "pow2 k = (if 0 \<le> k then 2 ^ nat k else 1 / 2 ^ nat (- k))"

text \<open>For \<open>x > 0\<close>, the \<open>k\<close> with \<open>2^k \<le> x < 2^(k+1)\<close>.\<close>

definition floor_log2 :: "rat \<Rightarrow> int" where
  "floor_log2 x =
     (if 1 \<le> x then int (bit_length (nat \<lfloor>x\<rfloor>)) - 1
      else - int (bit_length (nat (\<lceil>1 / x\<rceil> - 1))))"

definition round_half_even :: "rat \<Rightarrow> int" where
  "round_half_even x =
     (let f = \<lfloor>x\<rfloor>; r = x - of_int f
      in if r < 1 / 2 then f
         else if 1 / 2 < r then f + 1
         else if even f then f else f + 1)"

definition fl :: "rat \<Rightarrow> rat" where
  "fl x =
     (if x = 0 then 0
      else let a = \<bar>x\<bar>; e = floor_log2 a - 52; m = round_half_even (a / pow2 e)
           in sgn x * of_int m * pow2 e)"

definition js_div :: "rat \<Rightarrow> rat \<Rightarrow> rat" where
  "js_div a b = fl (a / b)"

definition js_mul :: "rat \<Rightarrow> rat \<Rightarrow> rat" where
  "js_mul a b = fl (a * b)"

text \<open>\<open>Math.round\<close>: the nearest integer, a tie going up.\<close>

definition Math_round :: "rat \<Rightarrow> int" where
  "Math_round x = \<lfloor>x + 1 / 2\<rfloor>"

definition Math_floor :: "rat \<Rightarrow> int" where
  "Math_floor x = \<lfloor>x\<rfloor>"

text \<open>
  The double nearest to an integer, which is an integer again (\<open>to_double_fl\<close>): what a
  64-bit integer of the table becomes when the driver hands it to JavaScript, and what
  the sum of two integer doubles is rounded to.
\<close>

definition to_double :: "int \<Rightarrow> int" where
  "to_double n = \<lfloor>fl (of_int n)\<rfloor>"

definition js_add :: "int \<Rightarrow> int \<Rightarrow> int" where
  "js_add a b = to_double (a + b)"

section \<open>ECMAScript dates\<close>

text \<open>
  A \<open>Date\<close> is its time value: milliseconds since 1970-01-01T00:00:00Z, an integer.
  \<open>new Date()\<close> and \<open>Date.now()\<close> read the clock, which the model takes as an argument
  \<open>now\<close>. The functions below are the abstract operations of the language standard
  (Day, DayFromYear, YearFromTime, InLeapYear, MonthFromTime, DateFromTime, ...) and
  \<open>Date.prototype.toISOString\<close>, which renders the time value in UTC.
\<close>

definition msPerDay :: int where
  "msPerDay = 86400000"

definition Day :: "int \<Rightarrow> int" where
  "Day t = t div msPerDay"

definition TimeWithinDay :: "int \<Rightarrow> int" where
  "TimeWithinDay t = t mod msPerDay"

definition DayFromYear :: "int \<Rightarrow> int" where
  "DayFromYear y =
     365 * (y - 1970) + (y - 1969) div 4 - (y - 1901) div 100 + (y - 1601) div 400"

text \<open>
  YearFromTime is the largest year whose first day is not after the day of \<open>t\<close>. The
  estimate \<open>y0\<close> (one year is 146097 / 400 days on average) is off by at most one.
\<close>

definition YearFromDay :: "int \<Rightarrow> int" where
  "YearFromDay d =
     (let y0 = 1970 + (400 * d) div 146097
      in if DayFromYear (y0 + 1) \<le> d then y0 + 1
         else if DayFromYear y0 \<le> d then y0
         else y0 - 1)"

definition YearFromTime :: "int \<Rightarrow> int" where
  "YearFromTime t = YearFromDay (Day t)"

definition InLeapYear :: "int \<Rightarrow> int" where
  "InLeapYear t =
     (let y = YearFromTime t
      in if y mod 4 = 0 \<and> (y mod 100 \<noteq> 0 \<or> y mod 400 = 0) then 1 else 0)"

definition DayWithinYear :: "int \<Rightarrow> int" where
  "DayWithinYear t = Day t - DayFromYear (YearFromTime t)"

definition MonthFromTime :: "int \<Rightarrow> int" where
  "MonthFromTime t =
     (let d = DayWithinYear t; l = InLeapYear t
      in if d < 31 then 0
         else if d < 59 + l then 1
         else if d < 90 + l then 2
         else if d < 120 + l then 3
         else if d < 151 + l then 4
         else if d < 181 + l then 5
         else if d < 212 + l then 6
         else if d < 243 + l then 7
         else if d < 273 + l then 8
         else if d < 304 + l then 9
         else if d < 334 + l then 10
         else 11)"

definition DateFromTime :: "int \<Rightarrow> int" where
  "DateFromTime t =
     (let d = DayWithinYear t; l = InLeapYear t; m = MonthFromTime t
      in if m = 0 then d + 1
         else if m = 1 then d - 30
         else if m = 2 then d - 58 - l
         else if m = 3 then d - 89 - l
         else if m = 4 then d - 119 - l
         else if m = 5 then d - 150 - l
         else if m = 6 then d - 180 - l
         else if m = 7 then d - 211 - l
         else if m = 8 then d - 242 - l
         else if m = 9 then d - 272 - l
         else if m = 10 then d - 303 - l
         else d - 333 - l)"

definition HourFromTime :: "int \<Rightarrow> int" where
  "HourFromTime t = (t div 3600000) mod 24"

definition MinFromTime :: "int \<Rightarrow> int" where
  "MinFromTime t = (t div 60000) mod 60"

definition SecFromTime :: "int \<Rightarrow> int" where
  "SecFromTime t = (t div 1000) mod 60"

definition msFromTime :: "int \<Rightarrow> int" where
  "msFromTime t = t mod 1000"

text \<open>A non-negative integer in decimal, padded with zeros on the left to \<open>w\<close> digits.\<close>

definition pad :: "nat \<Rightarrow> int \<Rightarrow> string" where
  "pad w n = replicate (w - length (digits (nat n))) (CHR ''0'') @ digits (nat n)"

text \<open>
  The year of the ISO format: four digits from 0 to 9999, otherwise a sign and six
  digits.
\<close>

definition iso_year :: "int \<Rightarrow> string" where
  "iso_year y =
     (if 0 \<le> y \<and> y \<le> 9999 then pad 4 y
      else if y < 0 then CHR ''-'' # pad 6 (- y)
      else CHR ''+'' # pad 6 y)"

definition iso_date :: "int \<Rightarrow> string" where
  "iso_date t =
     iso_year (YearFromTime t) @ ''-'' @ pad 2 (MonthFromTime t + 1) @ ''-'' @
     pad 2 (DateFromTime t)"

definition toISOString :: "int \<Rightarrow> string" where
  "toISOString t =
     iso_date t @ ''T'' @ pad 2 (HourFromTime t) @ '':'' @ pad 2 (MinFromTime t) @ '':'' @
     pad 2 (SecFromTime t) @ ''.'' @ pad 3 (msFromTime t) @ ''Z''"

text \<open>\<open>s.split('T')[0]\<close>: the part of \<open>s\<close> before its first \<open>T\<close>, all of \<open>s\<close> when it has none.\<close>

definition split_T_first :: "string \<Rightarrow> string" where
  "split_T_first s = takeWhile (\<lambda>c. c \<noteq> CHR ''T'') s"

section \<open>database.js: formatDuration\<close>

text \<open>
  \<open>seconds\<close> is an integer that a double holds. The two divisions are double divisions
  under \<open>Math.floor\<close>; \<open>%\<close> on doubles is exact.
\<close>

definition formatDuration :: "int \<Rightarrow> string" where
  "formatDuration seconds =
     (let hours = Math_floor (js_div (of_int seconds) 3600);
          minutes = Math_floor (js_div (of_int (js_rem seconds 3600)) 60);
          remainingSeconds = js_rem seconds 60
      in if hours > 0 then
           js_string_of_int hours @ ''h '' @ js_string_of_int minutes @ ''m '' @
           js_string_of_int remainingSeconds @ ''s''
         else if minutes > 0 then
           js_string_of_int minutes @ ''m '' @ js_string_of_int remainingSeconds @ ''s''
         else js_string_of_int remainingSeconds @ ''s'')"

section \<open>database.js: the usage store\<close>

text \<open>
  The table \<open>usage_logs\<close> is the list of its rows in insertion order. \<open>last_id\<close> is the
  counter behind \<open>INTEGER PRIMARY KEY AUTOINCREMENT\<close>. Whether the SQLite driver reports
  an error for a statement is decided outside the program: each operation takes the
  driver's answer \<open>io\<close> (\<open>None\<close>: no error) as an argument, as it takes the clock. The
  integers of the table have 64 bits; an error of the statement itself, as when \<open>SUM\<close>
  leaves that range, is one of the answers \<open>io\<close> stands for.
\<close>

datatype error = ProbeError | SqliteError

record usage_log =
  log_id :: nat
  app_name :: string
  duration_seconds :: int
  logged_at :: string
  date :: string

record database =
  usage_logs :: "usage_log list"
  last_id :: nat

text \<open>\<open>CURRENT_TIMESTAMP\<close>, the default of \<open>logged_at\<close>: UTC, \<open>YYYY-MM-DD HH:MM:SS\<close>.\<close>

definition CURRENT_TIMESTAMP :: "int \<Rightarrow> string" where
  "CURRENT_TIMESTAMP t =
     iso_date t @ '' '' @ pad 2 (HourFromTime t) @ '':'' @ pad 2 (MinFromTime t) @ '':'' @
     pad 2 (SecFromTime t)"

definition logUsage :: "int \<Rightarrow> error option \<Rightarrow> string \<Rightarrow> int \<Rightarrow> database \<Rightarrow> error + nat \<times> database" where
  "logUsage now io appName durationSeconds d =
     (let date_str = split_T_first (toISOString now)
      in case io of
           Some err \<Rightarrow> Inl err
         | None \<Rightarrow>
             let lastID = Suc (last_id d)
             in Inr (lastID,
                  d\<lparr>usage_logs := usage_logs d @
                       [\<lparr>log_id = lastID, app_name = appName,
                         duration_seconds = durationSeconds,
                         logged_at = CURRENT_TIMESTAMP now, date = date_str\<rparr>],
                    last_id := lastID\<rparr>))"

definition clearAllData :: "error option \<Rightarrow> database \<Rightarrow> error + database" where
  "clearAllData io d = (case io of Some err \<Rightarrow> Inl err | None \<Rightarrow> Inr (d\<lparr>usage_logs := []\<rparr>))"

text \<open>
  The five statements of \<open>getUsageStats\<close> differ in their \<open>WHERE\<close> clause only:
  \<open>date = ?\<close>, \<open>date >= ?\<close> (on \<open>TEXT\<close>: bytewise, the lexicographic order of strings) or
  none. Each is \<open>SELECT app_name, SUM(duration_seconds) as total_seconds, COUNT(*) as
  session_count FROM usage_logs ... GROUP BY app_name ORDER BY total_seconds DESC\<close>.
  SQL leaves the order of groups with equal totals open, and SQLite's depends on its
  query plan; the model fixes one order, and nothing proved below depends on which.
  The sum is SQLite's, on integers.
\<close>

datatype where_clause = DateEq string | DateGe string | NoWhere

fun where_holds :: "where_clause \<Rightarrow> usage_log \<Rightarrow> bool" where
  "where_holds (DateEq p) r = (date r = p)"
| "where_holds (DateGe p) r = (p \<le> date r)"
| "where_holds NoWhere r = True"

record stat_row =
  row_app_name :: string
  total_seconds :: int
  session_count :: nat

definition group_by_app_name :: "usage_log list \<Rightarrow> stat_row list" where
  "group_by_app_name rs =
     map (\<lambda>a. \<lparr>row_app_name = a,
               total_seconds = sum_list (map duration_seconds (filter (\<lambda>r. app_name r = a) rs)),
               session_count = length (filter (\<lambda>r. app_name r = a) rs)\<rparr>)
         (remdups (map app_name rs))"

definition order_by_total_seconds_desc :: "stat_row list \<Rightarrow> stat_row list" where
  "order_by_total_seconds_desc rows = sort_key (\<lambda>row. - total_seconds row) rows"

definition run_query :: "where_clause \<Rightarrow> usage_log list \<Rightarrow> stat_row list" where
  "run_query w rs = order_by_total_seconds_desc (group_by_app_name (filter (where_holds w) rs))"

record app_stats =
  appName :: string
  totalSeconds :: int
  sessionCount :: nat
  totalTime :: string
  percentage :: int

record usage_stats =
  apps :: "app_stats list"
  stats_totalTime :: string
  stats_totalSeconds :: int
  period :: string

text \<open>
  \<open>totalTime > 0 ? Math.round((row.total_seconds / totalTime) * 100) : 0\<close>: a double
  division, then a double multiplication, then \<open>Math.round\<close>.
\<close>

definition percentage_of :: "int \<Rightarrow> int \<Rightarrow> int" where
  "percentage_of row_total grand_total =
     (if grand_total > 0
      then Math_round (js_mul (js_div (of_int row_total) (of_int grand_total)) 100)
      else 0)"

text \<open>
  The \<open>switch (period)\<close> of \<open>getUsageStats\<close>: which \<open>WHERE\<close> clause is run, with
  \<open>today\<close>, \<open>yesterday\<close> and \<open>weekAgo\<close> the UTC dates of now, of 24 hours ago and of
  7 days ago. The \<open>default\<close> branch is the statement of \<open>'today'\<close>.
\<close>

definition period_where :: "int \<Rightarrow> string \<Rightarrow> where_clause" where
  "period_where now period_val =
     (let today = split_T_first (toISOString now);
          yesterday = split_T_first (toISOString (now - 24 * 60 * 60 * 1000));
          weekAgo = split_T_first (toISOString (now - 7 * 24 * 60 * 60 * 1000))
      in if period_val = ''today'' then DateEq today
         else if period_val = ''yesterday'' then DateEq yesterday
         else if period_val = ''week'' then DateGe weekAgo
         else if period_val = ''all'' then NoWhere
         else DateEq today)"

text \<open>
  \<open>getUsageStats(period = 'today')\<close>: the argument is \<open>None\<close> when the caller passes none
  (\<open>undefined\<close>), and then the default applies. The rows reach the callback with their
  integers turned into doubles (\<open>js_row\<close>). \<open>total_time\<close> is the local \<open>totalTime\<close>, the
  \<open>reduce\<close> over the rows, which adds doubles.
\<close>

definition js_row :: "stat_row \<Rightarrow> stat_row" where
  "js_row row = row\<lparr>total_seconds := to_double (total_seconds row)\<rparr>"

definition getUsageStats :: "int \<Rightarrow> error option \<Rightarrow> string option \<Rightarrow> database \<Rightarrow> error + usage_stats" where
  "getUsageStats now io period_arg d =
     (let period_val = (case period_arg of None \<Rightarrow> ''today'' | Some p \<Rightarrow> p);
          query = period_where now period_val
      in case io of
           Some err \<Rightarrow> Inl err
         | None \<Rightarrow>
             let rows = map js_row (run_query query (usage_logs d));
                 total_time = foldl (\<lambda>sum row. js_add sum (total_seconds row)) 0 rows;
                 formattedRows =
                   map (\<lambda>row. \<lparr>appName = row_app_name row,
                                 totalSeconds = total_seconds row,
                                 sessionCount = session_count row,
                                 totalTime = formatDuration (total_seconds row),
                                 percentage = percentage_of (total_seconds row) total_time\<rparr>) rows
             in Inr \<lparr>apps = formattedRows,
                     stats_totalTime = formatDuration total_time,
                     stats_totalSeconds = total_time,
                     period = period_val\<rparr>)"

section \<open>main.js: the tracker\<close>

text \<open>
  The fields of \<open>AppUsageTracker\<close>. \<open>mainWindow\<close> only matters as present or absent.
  \<open>trackingInterval\<close> holds the handle \<open>setInterval\<close> returned; \<open>intervals\<close> is the set of
  timers of the process that are still scheduled and \<open>next_interval\<close> the next fresh
  handle. \<open>usage_updated\<close> counts the \<open>'usage-updated'\<close> messages sent to the window.
\<close>

record tracker =
  mainWindow :: bool
  db :: database
  currentApp :: "string option"
  currentAppStartTime :: "int option"
  trackingInterval :: "nat option"
  isTracking :: bool
  intervals :: "nat set"
  next_interval :: nat
  usage_updated :: nat

definition new_tracker :: "database \<Rightarrow> tracker" where
  "new_tracker d =
     \<lparr>mainWindow = False, db = d, currentApp = None, currentAppStartTime = None,
      trackingInterval = None, isTracking = False, intervals = {}, next_interval = 0,
      usage_updated = 0\<rparr>"

definition sendUsageUpdate :: "tracker \<Rightarrow> tracker" where
  "sendUsageUpdate s = (if mainWindow s then s\<lparr>usage_updated := Suc (usage_updated s)\<rparr> else s)"

text \<open>\<open>now - this.currentAppStartTime\<close>: a \<open>null\<close> operand of \<open>-\<close> counts as 0.\<close>

definition time_value :: "int option \<Rightarrow> int" where
  "time_value v = (case v of None \<Rightarrow> 0 | Some t \<Rightarrow> t)"

text \<open>
  One sample. \<open>probe\<close> is what \<open>getCurrentApp\<close> gave: the trimmed name \<open>appName\<close>, or the error it
  threw. The body runs in \<open>try\<close>: a probe that throws, and a \<open>logUsage\<close> that rejects, both
  end in the \<open>catch\<close>, which prints the error and leaves every field as it was.
  \<open>this.currentApp && ...\<close> is false for \<open>null\<close> and for the empty string. \<open>logUsage\<close>
  reads the clock for itself in the same turn; the model hands it the same reading.
\<close>

definition trackCurrentApp :: "(error + string) \<Rightarrow> int \<Rightarrow> error option \<Rightarrow> tracker \<Rightarrow> tracker" where
  "trackCurrentApp probe now io s =
     (case probe of
        Inl err \<Rightarrow> s
      | Inr name \<Rightarrow>
          (case (case currentApp s of
                   None \<Rightarrow> Inr s
                 | Some cur \<Rightarrow>
                     if cur \<noteq> [] \<and> cur \<noteq> name then
                       (let usageTime = (now - time_value (currentAppStartTime s)) div 1000
                        in if usageTime > 0 then
                             (case logUsage now io cur usageTime (db s) of
                                Inl err \<Rightarrow> Inl err
                              | Inr (lastID, d') \<Rightarrow> Inr (sendUsageUpdate (s\<lparr>db := d'\<rparr>)))
                           else Inr s)
                     else Inr s) of
             Inl err \<Rightarrow> s
           | Inr s1 \<Rightarrow>
               if currentApp s1 \<noteq> Some name
               then s1\<lparr>currentApp := Some name, currentAppStartTime := Some now\<rparr>
               else s1))"

text \<open>
  \<open>startTracking\<close> calls \<open>trackCurrentApp\<close> for the initial sample, whose inputs are the
  first three arguments, and then schedules the timer. The call is not awaited; what it
  assigns (\<open>currentApp\<close>, \<open>currentAppStartTime\<close>, the store) is disjoint from what
  \<open>startTracking\<close> assigns after it, so the state is the same in either order. A tick of
  the timer is a later \<open>trackCurrentApp\<close>.
\<close>

definition startTracking :: "(error + string) \<Rightarrow> int \<Rightarrow> error option \<Rightarrow> tracker \<Rightarrow> tracker" where
  "startTracking probe now io s =
     (if isTracking s then s
      else let s1 = s\<lparr>isTracking := True\<rparr>;
               s2 = trackCurrentApp probe now io s1;
               h = next_interval s2
           in s2\<lparr>trackingInterval := Some h, intervals := insert h (intervals s2),
                 next_interval := Suc h\<rparr>)"

text \<open>
  \<open>stopTracking\<close> does not await \<open>logUsage\<close>: when the insert fails nothing in the
  tracker sees it.
\<close>

definition stopTracking :: "int \<Rightarrow> error option \<Rightarrow> tracker \<Rightarrow> tracker" where
  "stopTracking now io s =
     (if \<not> isTracking s then s
      else let s1 = s\<lparr>isTracking := False\<rparr>;
               s2 = (case trackingInterval s1 of
                       None \<Rightarrow> s1
                     | Some h \<Rightarrow> s1\<lparr>intervals := intervals s1 - {h}, trackingInterval := None\<rparr>)
           in case (currentApp s2, currentAppStartTime s2) of
                (Some cur, Some start) \<Rightarrow>
                  if cur \<noteq> [] then
                    (let usageTime = (now - start) div 1000
                     in if usageTime > 0 then
                          (case logUsage now io cur usageTime (db s2) of
                             Inl err \<Rightarrow> s2
                           | Inr (lastID, d') \<Rightarrow> s2\<lparr>db := d'\<rparr>)
                        else s2)
                  else s2
              | _ \<Rightarrow> s2)"

text \<open>A run of samples, oldest first; each is the probe's answer, the clock and the driver's answer.\<close>

type_synonym sample = "(error + string) \<times> int \<times> error option"

fun track_all :: "sample list \<Rightarrow> tracker \<Rightarrow> tracker" where
  "track_all [] s = s"
| "track_all ((probe, now, io) # rest) s = track_all rest (trackCurrentApp probe now io s)"

text \<open>What the store holds, as the attributions (app, seconds) in the order they were written.\<close>

definition attributions :: "database \<Rightarrow> (string \<times> int) list" where
  "attributions d = map (\<lambda>r. (app_name r, duration_seconds r)) (usage_logs d)"

section \<open>Notions of the specification\<close>

text \<open>The shape \<open>YYYY-MM-DD\<close>: four digits, a hyphen, two digits, a hyphen, two digits.\<close>

definition is_digit :: "char \<Rightarrow> bool" where
  "is_digit c = (c \<in> set ''0123456789'')"

fun is_YYYY_MM_DD :: "string \<Rightarrow> bool" where
  "is_YYYY_MM_DD [y1, y2, y3, y4, s1, m1, m2, s2, d1, d2] =
     (is_digit y1 \<and> is_digit y2 \<and> is_digit y3 \<and> is_digit y4 \<and> s1 = CHR ''-'' \<and>
      is_digit m1 \<and> is_digit m2 \<and> s2 = CHR ''-'' \<and> is_digit d1 \<and> is_digit d2)"
| "is_YYYY_MM_DD _ = False"

text \<open>
  The calendar date at time \<open>t\<close> in a timezone whose local time is \<open>tza\<close> milliseconds
  ahead of UTC (LocalTime(t) = t + LocalTZA): the specification's date "in the tracker's
  local timezone". With \<open>tza = 0\<close> it is the UTC date.
\<close>

definition local_date :: "int \<Rightarrow> int \<Rightarrow> string" where
  "local_date tza t = iso_date (t + tza)"

text \<open>
  The percentage as the specification words it: \<open>round(100 * totalSeconds / grandTotal)\<close>
  on the exact quotient, 0 when \<open>grandTotal\<close> is 0.
\<close>

definition spec_percentage :: "int \<Rightarrow> int \<Rightarrow> int" where
  "spec_percentage row_total grand_total =
     (if grand_total = 0 then 0
      else round (100 * (of_int row_total :: rat) / of_int grand_total))"

section \<open>Two stores used as examples\<close>

text \<open>
  What the table holds after Safari was in front for 23 seconds and then Mail for 17,
  all on 1970-01-01 (UTC); and the same with the Mail row written the day before.
\<close>

definition store_23_17 :: database where
  "store_23_17 =
     \<lparr>usage_logs =
        [\<lparr>log_id = 1, app_name = ''Safari'', duration_seconds = 23,
          logged_at = ''1970-01-01 00:00:23'', date = ''1970-01-01''\<rparr>,
         \<lparr>log_id = 2, app_name = ''Mail'', duration_seconds = 17,
          logged_at = ''1970-01-01 00:00:40'', date = ''1970-01-01''\<rparr>],
      last_id = 2\<rparr>"

definition store_two_days :: database where
  "store_two_days =
     \<lparr>usage_logs =
        [\<lparr>log_id = 1, app_name = ''Mail'', duration_seconds = 17,
          logged_at = ''1969-12-31 23:59:50'', date = ''1969-12-31''\<rparr>,
         \<lparr>log_id = 2, app_name = ''Safari'', duration_seconds = 23,
          logged_at = ''1970-01-01 00:00:23'', date = ''1970-01-01''\<rparr>],
      last_id = 2\<rparr>"

section \<open>Helper lemmas\<close>

lemma js_rem_nonneg: "0 \<le> a \<Longrightarrow> 0 < b \<Longrightarrow> js_rem a b = a mod b"
  by (simp add: js_rem_def)

lemma js_string_of_int_nonneg: "0 \<le> i \<Longrightarrow> js_string_of_int i = digits (nat i)"
  by (simp add: js_string_of_int_def)

lemma trackCurrentApp_frame:
  "isTracking (trackCurrentApp p n io s) = isTracking s"
  "trackingInterval (trackCurrentApp p n io s) = trackingInterval s"
  "intervals (trackCurrentApp p n io s) = intervals s"
  "next_interval (trackCurrentApp p n io s) = next_interval s"
  by (auto simp: trackCurrentApp_def sendUsageUpdate_def logUsage_def Let_def
      split: sum.splits option.splits prod.splits if_splits)

lemma trackCurrentApp_probe_failed: "trackCurrentApp (Inl e) now io s = s"
  by (simp add: trackCurrentApp_def)

lemma trackCurrentApp_first:
  "currentApp s = None \<Longrightarrow>
   trackCurrentApp (Inr a) now io s = s\<lparr>currentApp := Some a, currentAppStartTime := Some now\<rparr>"
  by (simp add: trackCurrentApp_def)

lemma trackCurrentApp_same:
  "currentApp s = Some a \<Longrightarrow> trackCurrentApp (Inr a) now io s = s"
  by (simp add: trackCurrentApp_def)

lemma trackCurrentApp_switch:
  assumes "currentApp s = Some cur" "cur \<noteq> []" "cur \<noteq> a"
    and "currentAppStartTime s = Some t" "1000 \<le> now - t"
  shows "currentApp (trackCurrentApp (Inr a) now None s) = Some a"
    and "currentAppStartTime (trackCurrentApp (Inr a) now None s) = Some now"
    and "attributions (db (trackCurrentApp (Inr a) now None s)) =
           attributions (db s) @ [(cur, (now - t) div 1000)]"
  using assms
  by (auto simp: trackCurrentApp_def sendUsageUpdate_def logUsage_def attributions_def
      time_value_def Let_def)

text \<open>A stay of less than one second is dropped: the switch is recorded, nothing is written.\<close>

lemma trackCurrentApp_switch_short:
  assumes "currentApp s = Some cur" "cur \<noteq> a" "currentAppStartTime s = Some t" "now - t < 1000"
  shows "trackCurrentApp (Inr a) now io s =
           s\<lparr>currentApp := Some a, currentAppStartTime := Some now\<rparr>"
proof -
  have "\<not> 0 < (now - t) div 1000" using assms(4) by (simp add: pos_imp_zdiv_pos_iff)
  then show ?thesis
    using assms(1-3) by (simp add: trackCurrentApp_def time_value_def Let_def)
qed

text \<open>\<open>stopTracking\<close> has no assignment to \<open>currentApp\<close> or \<open>currentAppStartTime\<close>.\<close>

lemma stopTracking_keeps:
  "currentApp (stopTracking now io s) = currentApp s"
  "currentAppStartTime (stopTracking now io s) = currentAppStartTime s"
  by (auto simp: stopTracking_def logUsage_def Let_def split: option.splits sum.splits prod.splits)

section \<open>Helper lemmas: the calendar\<close>

lemma div_sandwich:
  fixes x k :: int
  assumes "0 < k"
  shows "k * (x div k) \<le> x" and "x < k * (x div k) + k"
proof -
  define q where "q = k * (x div k)"
  define r where "r = x mod k"
  have "q + r = x" unfolding q_def r_def by (rule mult_div_mod_eq)
  moreover have "0 \<le> r" unfolding r_def using assms by (rule pos_mod_sign)
  moreover have "r < k" unfolding r_def using assms by (rule pos_mod_bound)
  ultimately show "k * (x div k) \<le> x" and "x < k * (x div k) + k"
    unfolding q_def [symmetric] by linarith+
qed

lemma div_step:
  fixes x k :: int
  assumes "0 < k"
  shows "(x + 1) div k - x div k = (if (x + 1) mod k = 0 then 1 else 0)"
proof -
  define q where "q = x div k"
  define r where "r = x mod k"
  have x: "x = k * q + r" by (simp add: q_def r_def)
  have r: "0 \<le> r" "r < k" using assms by (simp_all add: r_def)
  show ?thesis
  proof (cases "r + 1 = k")
    case True
    then have e: "x + 1 = k * (q + 1) + 0" using x by (simp add: algebra_simps)
    have "(x + 1) div k = q + 1" using e by (rule int_div_pos_eq) (use assms in simp_all)
    moreover have "(x + 1) mod k = 0" using e by (rule int_mod_pos_eq) (use assms in simp_all)
    ultimately show ?thesis by (simp add: q_def)
  next
    case False
    then have lt: "r + 1 < k" using r by simp
    have e: "x + 1 = k * q + (r + 1)" using x by simp
    have "(x + 1) div k = q" using e by (rule int_div_pos_eq) (use r lt in simp_all)
    moreover have "(x + 1) mod k = r + 1" using e by (rule int_mod_pos_eq) (use r lt in simp_all)
    ultimately show ?thesis using r by (simp add: q_def)
  qed
qed

lemma year_length:
  "DayFromYear (y + 1) - DayFromYear y =
     365 + (if y mod 4 = 0 \<and> (y mod 100 \<noteq> 0 \<or> y mod 400 = 0) then 1 else 0)"
proof -
  have m4: "(y - 1968) mod 4 = y mod 4" using mod_mult_self2 [of y 4 "- 492"] by simp
  have m100: "(y - 1900) mod 100 = y mod 100" using mod_mult_self2 [of y 100 "- 19"] by simp
  have m400: "(y - 1600) mod 400 = y mod 400" using mod_mult_self2 [of y 400 "- 4"] by simp
  have a: "(y - 1968) div 4 - (y - 1969) div 4 = (if y mod 4 = 0 then 1 else 0)"
    using div_step [of 4 "y - 1969"] by (simp add: m4)
  have b: "(y - 1900) div 100 - (y - 1901) div 100 = (if y mod 100 = 0 then 1 else 0)"
    using div_step [of 100 "y - 1901"] by (simp add: m100)
  have c: "(y - 1600) div 400 - (y - 1601) div 400 = (if y mod 400 = 0 then 1 else 0)"
    using div_step [of 400 "y - 1601"] by (simp add: m400)
  have d1: "y mod 400 = 0 \<Longrightarrow> y mod 100 = 0"
    by (simp add: mod_eq_0_iff_dvd) (erule dvd_trans [rotated], simp)
  have d2: "y mod 100 = 0 \<Longrightarrow> y mod 4 = 0"
    by (simp add: mod_eq_0_iff_dvd) (erule dvd_trans [rotated], simp)
  have "DayFromYear (y + 1) - DayFromYear y =
          365 + ((y - 1968) div 4 - (y - 1969) div 4) - ((y - 1900) div 100 - (y - 1901) div 100)
            + ((y - 1600) div 400 - (y - 1601) div 400)"
    by (simp add: DayFromYear_def)
  also have "\<dots> = 365 + (if y mod 4 = 0 \<and> (y mod 100 \<noteq> 0 \<or> y mod 400 = 0) then 1 else 0)"
  proof (cases "y mod 400 = 0")
    case True
    with d1 d2 show ?thesis by (simp add: a b c)
  next
    case n400: False
    show ?thesis
    proof (cases "y mod 100 = 0")
      case True
      with n400 d2 show ?thesis by (simp add: a b c)
    next
      case False
      with n400 show ?thesis by (simp add: a b c)
    qed
  qed
  finally show ?thesis .
qed


lemma DayFromYear_bounds:
  "146097 * (y - 1970) - 506 \<le> 400 * DayFromYear y"
  "400 * DayFromYear y \<le> 146097 * (y - 1970) + 589"
proof -
  define a where "a = (y - 1969) div 4"
  define b where "b = (y - 1901) div 100"
  define c where "c = (y - 1601) div 400"
  have a: "4 * a \<le> y - 1969" "y - 1969 < 4 * a + 4"
    unfolding a_def by (rule div_sandwich, simp)+
  have b: "100 * b \<le> y - 1901" "y - 1901 < 100 * b + 100"
    unfolding b_def by (rule div_sandwich, simp)+
  have c: "400 * c \<le> y - 1601" "y - 1601 < 400 * c + 400"
    unfolding c_def by (rule div_sandwich, simp)+
  have a4: "400 * a \<le> 100 * y - 196900" "100 * y - 197200 \<le> 400 * a"
    using a by linarith+
  have b4: "400 * b \<le> 4 * y - 7604" "4 * y - 8000 \<le> 400 * b"
    using b by linarith+
  have c4: "400 * c \<le> y - 1601" "y - 2000 \<le> 400 * c"
    using c by linarith+
  have d: "400 * DayFromYear y = 146000 * y - 287620000 + 400 * a - 400 * b + 400 * c"
    by (simp add: DayFromYear_def a_def b_def c_def algebra_simps)
  have lhs: "146097 * (y - 1970) - 506 = 146097 * y - 287811596" by simp
  have rhs: "146097 * (y - 1970) + 589 = 146097 * y - 287810501" by simp
  show "146097 * (y - 1970) - 506 \<le> 400 * DayFromYear y"
    unfolding lhs d using a4 b4 c4 by linarith
  show "400 * DayFromYear y \<le> 146097 * (y - 1970) + 589"
    unfolding rhs d using a4 b4 c4 by linarith
qed

lemma YearFromDay_spec:
  "DayFromYear (YearFromDay d) \<le> d" "d < DayFromYear (YearFromDay d + 1)"
proof -
  define n where "n = (400 * d) div 146097"
  define y0 where "y0 = 1970 + n"
  have e: "146097 * n \<le> 400 * d" "400 * d < 146097 * n + 146097"
    unfolding n_def by (rule div_sandwich, simp)+
  have "400 * DayFromYear (y0 - 1) \<le> 146097 * n - 145508"
    using DayFromYear_bounds(2) [of "y0 - 1"] by (simp add: y0_def algebra_simps)
  with e(1) have "400 * DayFromYear (y0 - 1) \<le> 400 * d" by linarith
  then have lo: "DayFromYear (y0 - 1) \<le> d" by simp
  have "146097 * n + 291688 \<le> 400 * DayFromYear (y0 + 2)"
    using DayFromYear_bounds(1) [of "y0 + 2"] by (simp add: y0_def algebra_simps)
  with e(2) have "400 * d < 400 * DayFromYear (y0 + 2)" by linarith
  then have hi: "d < DayFromYear (y0 + 2)" by simp
  have two: "y0 + 1 + 1 = y0 + 2" by simp
  have y: "YearFromDay d =
      (if DayFromYear (y0 + 1) \<le> d then y0 + 1 else if DayFromYear y0 \<le> d then y0 else y0 - 1)"
    by (simp add: YearFromDay_def y0_def n_def Let_def)
  show "DayFromYear (YearFromDay d) \<le> d" unfolding y using lo by simp
  show "d < DayFromYear (YearFromDay d + 1)" unfolding y using hi by (simp add: two)
qed

lemma DayWithinYear_range:
  "0 \<le> DayWithinYear t" "DayWithinYear t < 365 + InLeapYear t"
proof -
  show "0 \<le> DayWithinYear t"
    using YearFromDay_spec(1) [of "Day t"] by (simp add: DayWithinYear_def YearFromTime_def)
  have "Day t < DayFromYear (YearFromTime t + 1)"
    using YearFromDay_spec(2) [of "Day t"] by (simp add: YearFromTime_def)
  also have "\<dots> = DayFromYear (YearFromTime t) + (365 + InLeapYear t)"
    using year_length [of "YearFromTime t"] by (simp add: InLeapYear_def Let_def)
  finally show "DayWithinYear t < 365 + InLeapYear t" by (simp add: DayWithinYear_def)
qed

lemma InLeapYear_range: "InLeapYear t = 0 \<or> InLeapYear t = 1"
  by (simp add: InLeapYear_def Let_def)

lemma MonthFromTime_range: "0 \<le> MonthFromTime t" "MonthFromTime t \<le> 11"
  by (simp_all add: MonthFromTime_def Let_def)

lemma DateFromTime_range: "1 \<le> DateFromTime t" "DateFromTime t \<le> 31"
proof -
  define d where "d = DayWithinYear t"
  define l where "l = InLeapYear t"
  have r: "0 \<le> d" "d < 365 + l" "l = 0 \<or> l = 1"
    using DayWithinYear_range [of t] InLeapYear_range [of t] by (simp_all add: d_def l_def)
  have "1 \<le> DateFromTime t \<and> DateFromTime t \<le> 31"
    unfolding DateFromTime_def MonthFromTime_def Let_def d_def [symmetric] l_def [symmetric]
    using r by (auto split: if_splits)
  then show "1 \<le> DateFromTime t" "DateFromTime t \<le> 31" by simp_all
qed

section \<open>Helper lemmas: date strings\<close>

lemma digit_char_is_digit: "d < 10 \<Longrightarrow> is_digit (digit_char d)"
proof -
  assume "d < 10"
  then have "d \<in> {0, 1, 2, 3, 4, 5, 6, 7, 8, 9}" by auto
  then show ?thesis by (auto simp: is_digit_def digit_char_def)
qed

lemma digits_is_digit: "c \<in> set (digits n) \<Longrightarrow> is_digit c"
proof (induction n rule: digits.induct)
  case (1 n)
  show ?case
  proof (cases "n < 10")
    case True
    with "1.prems" show ?thesis by (simp add: digits.simps [of n] digit_char_is_digit)
  next
    case False
    with "1.prems" "1.IH" show ?thesis
      by (auto simp: digits.simps [of n] digit_char_is_digit)
  qed
qed

lemma length_digits_10: "n < 10 \<Longrightarrow> length (digits n) = 1"
  by (simp add: digits.simps [of n])

lemma length_digits_100: "n < 100 \<Longrightarrow> length (digits n) \<le> 2"
  by (simp add: digits.simps [of n] length_digits_10)

lemma length_digits_1000: "n < 1000 \<Longrightarrow> length (digits n) \<le> 3"
  using length_digits_100 [of "n div 10"] by (simp add: digits.simps [of n])

lemma length_digits_10000: "n < 10000 \<Longrightarrow> length (digits n) \<le> 4"
  using length_digits_1000 [of "n div 10"] by (simp add: digits.simps [of n])

lemma pad_is_digit: "c \<in> set (pad w n) \<Longrightarrow> is_digit c"
proof -
  assume "c \<in> set (pad w n)"
  then have "c = CHR ''0'' \<or> c \<in> set (digits (nat n))" by (auto simp: pad_def)
  then show ?thesis
  proof
    assume "c = CHR ''0''"
    then show ?thesis by (simp add: is_digit_def)
  next
    assume "c \<in> set (digits (nat n))"
    then show ?thesis by (rule digits_is_digit)
  qed
qed

lemma length_pad: "length (digits (nat n)) \<le> w \<Longrightarrow> length (pad w n) = w"
  by (simp add: pad_def)

lemma is_digit_not_T: "is_digit c \<Longrightarrow> c \<noteq> CHR ''T''"
  by (auto simp: is_digit_def)

lemma iso_year_no_T: "c \<in> set (iso_year y) \<Longrightarrow> c \<noteq> CHR ''T''"
  by (auto simp: iso_year_def dest!: pad_is_digit is_digit_not_T split: if_splits)

lemma iso_date_no_T: "c \<in> set (iso_date t) \<Longrightarrow> c \<noteq> CHR ''T''"
  by (auto simp: iso_date_def dest: iso_year_no_T dest!: pad_is_digit is_digit_not_T)

lemma split_T_first_toISOString: "split_T_first (toISOString t) = iso_date t"
proof -
  have "toISOString t = iso_date t @ CHR ''T'' # (pad 2 (HourFromTime t) @ '':'' @ pad 2 (MinFromTime t) @ '':'' @
     pad 2 (SecFromTime t) @ ''.'' @ pad 3 (msFromTime t) @ ''Z'')"
    by (simp add: toISOString_def)
  moreover have "\<forall>c \<in> set (iso_date t). c \<noteq> CHR ''T''" using iso_date_no_T by blast
  ultimately show ?thesis
    by (simp add: split_T_first_def takeWhile_tail)
qed

lemma is_YYYY_MM_DD_I:
  assumes "length a = 4" "length b = 2" "length c = 2"
    and "\<forall>x \<in> set a. is_digit x" "\<forall>x \<in> set b. is_digit x" "\<forall>x \<in> set c. is_digit x"
  shows "is_YYYY_MM_DD (a @ ''-'' @ b @ ''-'' @ c)"
proof -
  obtain a1 a2 a3 a4 where a: "a = [a1, a2, a3, a4]"
    using assms(1) by (auto simp: length_Suc_conv numeral_eq_Suc)
  obtain b1 b2 where b: "b = [b1, b2]"
    using assms(2) by (auto simp: length_Suc_conv numeral_eq_Suc)
  obtain c1 c2 where c: "c = [c1, c2]"
    using assms(3) by (auto simp: length_Suc_conv numeral_eq_Suc)
  show ?thesis using assms(4-6) by (simp add: a b c)
qed

lemma YearFromTime_range:
  assumes "0 \<le> t" "t < 253402300800000"
  shows "0 \<le> YearFromTime t" "YearFromTime t \<le> 9999"
proof -
  define d where "d = Day t"
  define y where "y = YearFromTime t"
  have d: "0 \<le> d" "d < 2932897"
  proof -
    show "0 \<le> d" using assms(1) by (simp add: d_def Day_def msPerDay_def pos_imp_zdiv_nonneg_iff)
    have "t div 86400000 \<le> 253402300799999 div 86400000"
      by (rule zdiv_mono1) (use assms(2) in simp_all)
    then have "t div 86400000 < 2932897" by simp
    then show "d < 2932897" by (simp add: d_def Day_def msPerDay_def)
  qed
  have s: "DayFromYear y \<le> d" "d < DayFromYear (y + 1)"
    using YearFromDay_spec [of d] by (simp_all add: y_def YearFromTime_def d_def)
  show "0 \<le> YearFromTime t"
  proof (rule ccontr)
    assume "\<not> 0 \<le> YearFromTime t"
    then have "y + 1 \<le> 0" by (simp add: y_def)
    then have "146097 * (y + 1 - 1970) + 589 \<le> 0" by simp
    with DayFromYear_bounds(2) [of "y + 1"] have "400 * DayFromYear (y + 1) \<le> 0" by linarith
    then have "DayFromYear (y + 1) \<le> 0" by simp
    with s(2) d(1) show False by simp
  qed
  show "YearFromTime t \<le> 9999"
  proof (rule ccontr)
    assume "\<not> YearFromTime t \<le> 9999"
    then have "10000 \<le> y" by (simp add: y_def)
    then have "1173158404 \<le> 146097 * (y - 1970) - 506" by simp
    with DayFromYear_bounds(1) [of y] have "400 * 2932896 < 400 * DayFromYear y" by linarith
    then have "2932896 < DayFromYear y" by simp
    with s(1) d(2) show False by simp
  qed
qed

lemma iso_date_format:
  assumes "0 \<le> t" "t < 253402300800000"
  shows "is_YYYY_MM_DD (iso_date t)"
proof -
  have y: "0 \<le> YearFromTime t" "YearFromTime t \<le> 9999"
    using assms by (rule YearFromTime_range)+
  have ly: "length (pad 4 (YearFromTime t)) = 4"
    by (rule length_pad, rule length_digits_10000) (use y in simp)
  have lm: "length (pad 2 (MonthFromTime t + 1)) = 2"
    by (rule length_pad, rule length_digits_100) (use MonthFromTime_range [of t] in simp)
  have ld: "length (pad 2 (DateFromTime t)) = 2"
    by (rule length_pad, rule length_digits_100) (use DateFromTime_range [of t] in simp)
  have "iso_date t = pad 4 (YearFromTime t) @ ''-'' @ pad 2 (MonthFromTime t + 1) @ ''-'' @
     pad 2 (DateFromTime t)"
    using y by (simp add: iso_date_def iso_year_def)
  moreover have "is_YYYY_MM_DD (pad 4 (YearFromTime t) @ ''-'' @ pad 2 (MonthFromTime t + 1) @ ''-'' @
     pad 2 (DateFromTime t))"
    using ly lm ld by (rule is_YYYY_MM_DD_I) (auto dest: pad_is_digit)
  ultimately show ?thesis by simp
qed

section \<open>Helper lemmas: doubles\<close>

lemma bit_length_pos: "0 < n \<Longrightarrow> 0 < bit_length n"
  by (simp add: bit_length.simps [of n])

lemma bit_length_bounds:
  "0 < n \<Longrightarrow> 2 ^ (bit_length n - 1) \<le> n \<and> n < 2 ^ bit_length n"
proof (induction n rule: bit_length.induct)
  case (1 n)
  have bl: "bit_length n = Suc (bit_length (n div 2))"
    using "1.prems" by (simp add: bit_length.simps [of n])
  show ?case
  proof (cases "n div 2 = 0")
    case True
    with "1.prems" have n1: "n = 1" by (simp add: div_eq_0_iff)
    have "bit_length (Suc 0) = Suc 0"
      by (simp add: bit_length.simps [of "Suc 0"] bit_length.simps [of 0])
    then show ?thesis using n1 by simp
  next
    case False
    then have pos: "0 < n div 2" by simp
    have ih: "2 ^ (bit_length (n div 2) - 1) \<le> n div 2" "n div 2 < 2 ^ bit_length (n div 2)"
      using "1.IH" "1.prems" pos by simp_all
    have blpos: "0 < bit_length (n div 2)" using pos by (rule bit_length_pos)
    then have "(2::nat) ^ bit_length (n div 2) = 2 * 2 ^ (bit_length (n div 2) - 1)"
      by (cases "bit_length (n div 2)") simp_all
    with ih(1) have lo: "2 ^ bit_length (n div 2) \<le> n" by simp
    have hi: "n < 2 * 2 ^ bit_length (n div 2)" using ih(2) by simp
    show ?thesis using lo hi by (simp add: bl)
  qed
qed

lemma pow2_pos: "0 < pow2 k"
  by (simp add: pow2_def)

lemma pow2_nat: "pow2 (int n) = 2 ^ n"
  by (simp add: pow2_def)

lemma pow2_neg: "pow2 (- int n) = 1 / 2 ^ n"
  by (cases n) (simp_all add: pow2_def nat_add_distrib)

lemma pow2_Suc: "pow2 (k + 1) = 2 * pow2 k"
proof (cases "0 \<le> k")
  case True
  then show ?thesis by (simp add: pow2_def nat_add_distrib)
next
  case False
  show ?thesis
  proof (cases "k = - 1")
    case True
    then show ?thesis by (simp add: pow2_def)
  next
    case k: False
    with False have "nat (- k) = Suc (nat (- (k + 1)))" by simp
    with False k show ?thesis by (simp add: pow2_def)
  qed
qed

lemma of_nat_pow2_le: "2 ^ m \<le> n \<Longrightarrow> (2::rat) ^ m \<le> rat_of_nat n"
proof -
  assume "2 ^ m \<le> n"
  then have "rat_of_nat (2 ^ m) \<le> rat_of_nat n" by (rule of_nat_mono)
  then show ?thesis by simp
qed

lemma of_nat_less_pow2: "n < 2 ^ m \<Longrightarrow> rat_of_nat n + 1 \<le> 2 ^ m"
proof -
  assume "n < 2 ^ m"
  then have "Suc n \<le> 2 ^ m" by simp
  then have "rat_of_nat (Suc n) \<le> rat_of_nat (2 ^ m)" by (rule of_nat_mono)
  then show ?thesis by simp
qed

lemma floor_log2_spec:
  assumes "0 < x"
  shows "pow2 (floor_log2 x) \<le> x" and "x < pow2 (floor_log2 x + 1)"
proof -
  have "pow2 (floor_log2 x) \<le> x \<and> x < pow2 (floor_log2 x + 1)"
  proof (cases "1 \<le> x")
    case True
    define n where "n = nat \<lfloor>x\<rfloor>"
    have n: "0 < n" using True by (simp add: n_def)
    have blpos: "0 < bit_length n" using n by (rule bit_length_pos)
    have k: "floor_log2 x = int (bit_length n - 1)"
      using blpos True by (simp add: floor_log2_def n_def)
    have b: "2 ^ (bit_length n - 1) \<le> n" "n < 2 ^ bit_length n"
      using bit_length_bounds [OF n] by simp_all
    have fl0: "0 \<le> \<lfloor>x\<rfloor>" using True by simp
    have e: "rat_of_nat n = of_int \<lfloor>x\<rfloor>" using fl0 by (simp add: n_def)
    have nx: "rat_of_nat n \<le> x" "x < rat_of_nat n + 1"
      unfolding e by linarith+
    have "2 ^ (bit_length n - 1) \<le> x"
      using of_nat_pow2_le [OF b(1)] nx(1) by (rule order_trans)
    then have lo: "pow2 (floor_log2 x) \<le> x" by (simp add: k pow2_nat)
    have "x < 2 ^ bit_length n"
      using nx(2) of_nat_less_pow2 [OF b(2)] by (rule less_le_trans)
    moreover have "pow2 (floor_log2 x + 1) = 2 ^ bit_length n"
    proof -
      have "int (bit_length n - 1) + 1 = int (bit_length n)" using blpos by simp
      then show ?thesis by (simp add: k pow2_nat)
    qed
    ultimately show ?thesis using lo by simp
  next
    case False
    define y where "y = 1 / x"
    define n where "n = nat (\<lceil>y\<rceil> - 1)"
    have y1: "1 < y" using False assms by (simp add: y_def)
    then have c2: "2 \<le> \<lceil>y\<rceil>" by linarith
    then have n: "0 < n" by (simp add: n_def)
    have blpos: "0 < bit_length n" using n by (rule bit_length_pos)
    have k: "floor_log2 x = - int (bit_length n)"
      using False by (simp add: floor_log2_def n_def y_def)
    have b: "2 ^ (bit_length n - 1) \<le> n" "n < 2 ^ bit_length n"
      using bit_length_bounds [OF n] by simp_all
    have e: "rat_of_nat n = of_int \<lceil>y\<rceil> - 1" using c2 by (simp add: n_def)
    have ny: "rat_of_nat n < y" "y \<le> rat_of_nat n + 1"
      unfolding e by linarith+
    have yhi: "y \<le> 2 ^ bit_length n"
      using ny(2) of_nat_less_pow2 [OF b(2)] by (rule order_trans)
    have ylo: "2 ^ (bit_length n - 1) < y"
      using of_nat_pow2_le [OF b(1)] ny(1) by (rule le_less_trans)
    have xy: "1 / y = x" by (simp add: y_def)
    have ypos: "0 < y" using y1 by simp
    have le: "1 / 2 ^ bit_length n \<le> 1 / y"
      using yhi ypos by (simp add: frac_le)
    have lo: "pow2 (floor_log2 x) \<le> x"
    proof -
      have "pow2 (floor_log2 x) = 1 / 2 ^ bit_length n" by (simp only: k pow2_neg)
      also have "\<dots> \<le> 1 / y" by (rule le)
      also have "\<dots> = x" by (rule xy)
      finally show ?thesis .
    qed
    have k1: "floor_log2 x + 1 = - int (bit_length n - 1)" using blpos by (simp add: k)
    have lt: "1 / y < 1 / 2 ^ (bit_length n - 1)"
      using ylo by (simp add: frac_less2)
    have hi: "x < pow2 (floor_log2 x + 1)"
    proof -
      have "x = 1 / y" by (rule xy [symmetric])
      also have "\<dots> < 1 / 2 ^ (bit_length n - 1)" by (rule lt)
      also have "\<dots> = pow2 (floor_log2 x + 1)" by (simp only: k1 pow2_neg)
      finally show ?thesis .
    qed
    from lo hi show ?thesis by (rule conjI)
  qed
  then show "pow2 (floor_log2 x) \<le> x" and "x < pow2 (floor_log2 x + 1)" by simp_all
qed

lemma pow2_add_nat: "pow2 (k + int n) = pow2 k * 2 ^ n"
proof (induction n)
  case 0
  show ?case by simp
next
  case (Suc n)
  have "pow2 (k + int (Suc n)) = pow2 ((k + int n) + 1)" by (simp add: algebra_simps)
  also have "\<dots> = 2 * pow2 (k + int n)" by (rule pow2_Suc)
  also have "\<dots> = pow2 k * 2 ^ Suc n" by (simp add: Suc.IH)
  finally show ?case .
qed

lemma round_half_even_near: "\<bar>of_int (round_half_even x) - x\<bar> \<le> 1 / 2"
proof -
  define f where "f = \<lfloor>x\<rfloor>"
  define r where "r = x - of_int f"
  have r: "0 \<le> r" "r < 1" unfolding r_def f_def by linarith+
  have x: "x = of_int f + r" by (simp add: r_def)
  have rh: "round_half_even x =
      (if r < 1 / 2 then f else if 1 / 2 < r then f + 1 else if even f then f else f + 1)"
    by (simp only: round_half_even_def Let_def f_def r_def)
  consider "r < 1 / 2" | "1 / 2 < r" | "r = 1 / 2" by linarith
  then have "round_half_even x = f \<and> r \<le> 1 / 2 \<or> round_half_even x = f + 1 \<and> 1 / 2 \<le> r"
  proof cases
    case 1
    then show ?thesis by (simp add: rh)
  next
    case 2
    then show ?thesis by (simp add: rh)
  next
    case 3
    then show ?thesis by (simp add: rh)
  qed
  then show ?thesis
  proof
    assume a: "round_half_even x = f \<and> r \<le> 1 / 2"
    then have "of_int (round_half_even x) - x = - r" by (simp add: x)
    with a r show ?thesis by simp
  next
    assume a: "round_half_even x = f + 1 \<and> 1 / 2 \<le> r"
    then have "of_int (round_half_even x) - x = 1 - r" by (simp add: x)
    with a r show ?thesis by simp
  qed
qed

text \<open>The rounding error of a double operation: at most \<open>2^-53\<close> of the exact result.\<close>

lemma fl_error:
  assumes "0 < x"
  shows "\<bar>fl x - x\<bar> \<le> x / 2 ^ 53"
proof -
  define e where "e = floor_log2 x - 52"
  define s where "s = pow2 e"
  define m where "m = round_half_even (x / s)"
  have s: "0 < s" unfolding s_def by (rule pow2_pos)
  have f: "fl x = of_int m * s"
    using assms by (simp add: fl_def Let_def e_def s_def m_def)
  have "pow2 (floor_log2 x) = pow2 (e + int 52)" by (simp add: e_def)
  also have "\<dots> = s * 2 ^ 52" unfolding s_def by (rule pow2_add_nat)
  finally have "s * 2 ^ 52 \<le> x" using floor_log2_spec(1) [OF assms] by simp
  then have sx: "s \<le> x / 2 ^ 52" by (simp add: pos_le_divide_eq)
  have "fl x - x = (of_int m - x / s) * s" using s by (simp add: f algebra_simps)
  then have "\<bar>fl x - x\<bar> = \<bar>of_int m - x / s\<bar> * s" using s by (simp add: abs_mult)
  also have "\<dots> \<le> (1 / 2) * s"
    using round_half_even_near [of "x / s"] s unfolding m_def
    by (intro mult_right_mono) simp_all
  also have "\<dots> \<le> (1 / 2) * (x / 2 ^ 52)" using sx by simp
  also have "\<dots> = x / 2 ^ 53" by simp
  finally show ?thesis .
qed

lemma fl_zero: "fl 0 = 0"
  by (simp add: fl_def)

lemma round_half_even_of_int: "round_half_even (of_int m) = m"
  by (simp add: round_half_even_def)

text \<open>Integers below \<open>2^53\<close> are doubles: rounding leaves them as they are.\<close>

lemma fl_of_nat_exact:
  assumes "0 < n" "n < 2 ^ 53"
  shows "fl (rat_of_nat n) = rat_of_nat n"
proof -
  define x where "x = rat_of_nat n"
  have x1: "1 \<le> x" using assms(1) by (simp add: x_def)
  have fx: "nat \<lfloor>x\<rfloor> = n" by (simp add: x_def)
  define b where "b = bit_length n"
  have bpos: "0 < b" unfolding b_def using assms(1) by (rule bit_length_pos)
  have "2 ^ (b - 1) \<le> n" using bit_length_bounds [OF assms(1)] by (simp add: b_def)
  with assms(2) have "(2::nat) ^ (b - 1) < 2 ^ 53" by simp
  then have b53: "b - 1 < 53" by (simp only: power_strict_increasing_iff)
  have k: "floor_log2 x = int (b - 1)" using x1 bpos by (simp add: floor_log2_def fx b_def)
  define j where "j = 52 - (b - 1)"
  have e: "floor_log2 x - 52 = - int j" using b53 by (simp add: k j_def)
  have s: "pow2 (floor_log2 x - 52) = 1 / 2 ^ j" by (simp only: e pow2_neg)
  have "x * 2 ^ j = of_int (int (n * 2 ^ j))" by (simp add: x_def)
  then have m: "round_half_even (x * 2 ^ j) = int (n * 2 ^ j)"
    by (simp only: round_half_even_of_int)
  have xpos: "0 < x" "x \<noteq> 0" "\<bar>x\<bar> = x" using x1 by simp_all
  have "fl x = sgn x * of_int (round_half_even (x / (1 / 2 ^ j))) * (1 / 2 ^ j)"
    using xpos by (simp only: fl_def Let_def s if_False)
  also have "\<dots> = of_int (int (n * 2 ^ j)) * (1 / 2 ^ j)"
    using xpos(1) by (simp add: m)
  also have "\<dots> = x" by (simp add: x_def)
  finally show ?thesis by (simp only: x_def)
qed

lemma fl_of_int_exact:
  assumes "\<bar>i\<bar> < 2 ^ 53"
  shows "fl (of_int i) = of_int i"
proof (cases "i = 0")
  case True
  then show ?thesis by (simp add: fl_zero)
next
  case False
  define n where "n = nat \<bar>i\<bar>"
  have n: "0 < n" "n < 2 ^ 53" using False assms by (simp_all add: n_def nat_less_iff)
  have a: "\<bar>rat_of_int i\<bar> = rat_of_nat n" by (simp add: n_def)
  have pos: "fl (rat_of_nat n) = rat_of_nat n" using n by (rule fl_of_nat_exact)
  have np: "rat_of_nat n \<noteq> 0" using n(1) by simp
  have "fl (of_int i) = sgn (rat_of_int i) * fl (rat_of_nat n)"
    using False np by (simp add: fl_def Let_def a)
  also have "\<dots> = sgn (rat_of_int i) * \<bar>rat_of_int i\<bar>" by (simp only: pos a)
  also have "\<dots> = of_int i" by (simp add: sgn_mult_abs)
  finally show ?thesis .
qed

lemma percentage_product_error:
  assumes "0 < v" "v \<le> 1"
  shows "\<bar>fl (fl v * 100) - 100 * v\<bar> \<le> 300 / 2 ^ 53"
proof -
  define q where "q = fl v"
  define p where "p = fl (q * 100)"
  have e1: "\<bar>q - v\<bar> \<le> v / 2 ^ 53" unfolding q_def using assms(1) by (rule fl_error)
  have v53: "v / 2 ^ 53 \<le> 1 / 2 ^ 53" using assms(2) by (simp add: divide_right_mono)
  have small: "(1::rat) / 2 ^ 53 < 1" by simp
  have qlo: "v - v / 2 ^ 53 \<le> q" and qhi: "q \<le> v + v / 2 ^ 53" using e1 by linarith+
  have "v / 2 ^ 53 < v" using assms(1) by (simp add: field_simps)
  with qlo have qpos: "0 < q" by linarith
  have q2: "q \<le> 2" using qhi v53 assms(2) small by linarith
  have "\<bar>p - q * 100\<bar> \<le> q * 100 / 2 ^ 53"
    unfolding p_def using qpos by (intro fl_error) simp
  also have "\<dots> \<le> 2 * 100 / 2 ^ 53" using q2 by (simp add: divide_right_mono)
  finally have e2: "\<bar>p - q * 100\<bar> \<le> 200 / 2 ^ 53" by simp
  have e3: "\<bar>q * 100 - 100 * v\<bar> \<le> 100 / 2 ^ 53"
  proof -
    have "q * 100 - 100 * v = 100 * (q - v)" by (simp add: algebra_simps)
    then have "\<bar>q * 100 - 100 * v\<bar> = 100 * \<bar>q - v\<bar>" by (simp only: abs_mult)
    also have "\<dots> \<le> 100 * (1 / 2 ^ 53)" using e1 v53 by (intro mult_left_mono) simp_all
    finally show ?thesis by simp
  qed
  have "\<bar>p - 100 * v\<bar> \<le> \<bar>p - q * 100\<bar> + \<bar>q * 100 - 100 * v\<bar>" by simp
  also have "\<dots> \<le> 200 / 2 ^ 53 + 100 / 2 ^ 53" using e2 e3 by (rule add_mono)
  finally show ?thesis by (simp add: p_def q_def)
qed


text \<open>
  What the double computation does to the percentage: below \<open>2^43\<close> seconds it is the
  exactly rounded share, except that a share exactly half-way between two integers may
  come out as the lower one.
\<close>

lemma percentage_of_near_spec:
  assumes "0 \<le> x" "x \<le> T" "0 < T" "T < 2 ^ 43"
  shows "percentage_of x T = spec_percentage x T \<or>
         (percentage_of x T = spec_percentage x T - 1 \<and> (200 * x + T) mod (2 * T) = 0)"
proof (cases "x = 0")
  case True
  have "\<lfloor>(1::rat) / 2\<rfloor> = 0" by (rule floor_unique) simp_all
  with True show ?thesis
    using assms(3) by (simp add: percentage_of_def spec_percentage_def js_div_def js_mul_def
        fl_zero Math_round_def)
next
  case False
  with assms(1) have xpos: "0 < x" by simp
  define v :: rat where "v = of_int x / of_int T"
  define p where "p = fl (fl v * 100)"
  define N where "N = 200 * x + T"
  define k where "k = N div (2 * T)"
  define r where "r = N mod (2 * T)"
  define w :: rat where "w = 100 * v + 1 / 2"
  have Tpos: "(0::rat) < of_int T" using assms(3) by simp
  have v: "0 < v" "v \<le> 1" using xpos assms(2) Tpos by (simp_all add: v_def)
  define d :: rat where "d = 300 / 2 ^ 53"
  have err: "\<bar>p - 100 * v\<bar> \<le> d"
    unfolding p_def d_def using v by (rule percentage_product_error)
  have code: "percentage_of x T = \<lfloor>p + 1 / 2\<rfloor>"
    using assms(3) by (simp add: percentage_of_def js_div_def js_mul_def Math_round_def p_def v_def)
  have wN: "w = of_int N / of_int (2 * T)"
    using Tpos by (simp add: w_def v_def N_def field_simps)
  have spec: "spec_percentage x T = k"
  proof -
    have "spec_percentage x T = \<lfloor>w\<rfloor>"
      using assms(3) by (simp add: spec_percentage_def round_def w_def v_def)
    also have "\<dots> = k" unfolding wN k_def by (rule floor_divide_of_int_eq)
    finally show ?thesis .
  qed
  have r: "0 \<le> r" "r < 2 * T" using assms(3) by (simp_all add: r_def)
  have N: "N = 2 * T * k + r" by (simp add: k_def r_def)
  have wk: "w = of_int k + of_int r / of_int (2 * T)"
    using Tpos by (simp add: wN N field_simps)
  have T44: "of_int (2 * T) < (2::rat) ^ 44"
  proof -
    have "2 * T < 2 ^ 44" using assms(4) by simp
    then have "(of_int (2 * T) :: rat) < of_int (2 ^ 44)" by (simp only: of_int_less_iff)
    then show ?thesis by simp
  qed
  have T2pos: "(0::rat) < of_int (2 * T)" using assms(3) by simp
  define u :: rat where "u = of_int r / of_int (2 * T)"
  define iT :: rat where "iT = 1 / of_int (2 * T)"
  have wku: "w = of_int k + u" by (simp only: wk u_def)
  have unit: "d < iT"
  proof -
    have "d < 1 / 2 ^ 44" by (simp add: d_def)
    also have "\<dots> < 1 / of_int (2 * T)" using T44 T2pos by (simp add: frac_less2)
    finally show ?thesis by (simp only: iT_def)
  qed
  have d1: "d < 1" by (simp add: d_def)
  have pw: "w - d \<le> p + 1 / 2" "p + 1 / 2 \<le> w + d"
    using err unfolding w_def by linarith+
  show ?thesis
  proof (cases "r = 0")
    case True
    then have w: "w = of_int k" by (simp add: wku u_def)
    have lo: "of_int k - 1 < p + 1 / 2" using pw(1) d1 w by linarith
    have hi: "p + 1 / 2 < of_int k + 1" using pw(2) d1 w by linarith
    have "\<lfloor>p + 1 / 2\<rfloor> = k \<or> \<lfloor>p + 1 / 2\<rfloor> = k - 1"
    proof (cases "of_int k \<le> p + 1 / 2")
      case True
      then have "\<lfloor>p + 1 / 2\<rfloor> = k" using hi by (rule floor_unique)
      then show ?thesis by simp
    next
      case False
      have "of_int (k - 1) \<le> p + 1 / 2" using lo by simp
      moreover have "p + 1 / 2 < of_int (k - 1) + 1" using False by simp
      ultimately have "\<lfloor>p + 1 / 2\<rfloor> = k - 1" by (rule floor_unique)
      then show ?thesis by simp
    qed
    moreover have "(200 * x + T) mod (2 * T) = 0" using True by (simp add: r_def N_def)
    ultimately show ?thesis by (auto simp: code spec)
  next
    case False
    with r have r1: "1 \<le> r" "r \<le> 2 * T - 1" by simp_all
    have f1: "iT \<le> u"
      unfolding iT_def u_def using r1(1) T2pos by (simp add: divide_right_mono)
    have f2: "u \<le> 1 - iT"
    proof -
      have "(of_int r :: rat) \<le> of_int (2 * T - 1)" using r1(2) by (simp only: of_int_le_iff)
      then have "of_int r / (of_int (2 * T) :: rat) \<le> of_int (2 * T - 1) / of_int (2 * T)"
        using T2pos by (simp add: divide_right_mono)
      also have "\<dots> = 1 - 1 / of_int (2 * T)" using T2pos by (simp add: field_simps)
      finally show ?thesis by (simp only: u_def iT_def)
    qed
    have lo: "of_int k \<le> p + 1 / 2" using pw(1) f1 unit wku by linarith
    have hi: "p + 1 / 2 < of_int k + 1" using pw(2) f2 unit wku by linarith
    from lo hi have "\<lfloor>p + 1 / 2\<rfloor> = k" by (rule floor_unique)
    then show ?thesis by (simp add: code spec)
  qed
qed

text \<open>Below \<open>2^53\<close>, \<open>Math.floor(a / b)\<close> is the integer quotient.\<close>

lemma floor_js_div_exact:
  assumes "0 \<le> a" "a < 2 ^ 53" "0 < b"
  shows "Math_floor (js_div (of_int a) (of_int b)) = a div b"
proof (cases "a = 0")
  case True
  then show ?thesis by (simp add: Math_floor_def js_div_def fl_zero)
next
  case False
  with assms(1) have apos: "0 < a" by simp
  define q where "q = a div b"
  define r where "r = a mod b"
  define x :: rat where "x = of_int a / of_int b"
  have bpos: "(0::rat) < of_int b" using assms(3) by simp
  have a: "a = b * q + r" by (simp add: q_def r_def)
  have r: "0 \<le> r" "r < b" using assms(3) by (simp_all add: r_def)
  have q0: "0 \<le> q" using assms(1,3) by (simp add: q_def pos_imp_zdiv_nonneg_iff)
  define u :: rat where "u = of_int r / of_int b"
  define ib :: rat where "ib = 1 / of_int b"
  have xq: "x = of_int q + u" using bpos by (simp add: x_def u_def a field_simps)
  have xpos: "0 < x" using apos bpos by (simp add: x_def)
  show ?thesis
  proof (cases "r = 0")
    case True
    then have xe: "x = of_int q" by (simp add: xq u_def)
    have "q \<le> a"
    proof -
      have "1 * q \<le> b * q" using assms(3) q0 by (intro mult_right_mono) simp_all
      then show ?thesis using a r(1) by simp
    qed
    with assms(2) q0 have "\<bar>q\<bar> < 2 ^ 53" by simp
    then have "fl (of_int q) = of_int q" by (rule fl_of_int_exact)
    then show ?thesis by (simp add: Math_floor_def js_div_def x_def [symmetric] xe q_def)
  next
    case False
    with r have r1: "1 \<le> r" "r \<le> b - 1" by simp_all
    have err: "\<bar>fl x - x\<bar> \<le> x / 2 ^ 53" using xpos by (rule fl_error)
    have small: "x / 2 ^ 53 < ib"
    proof -
      define c :: rat where "c = of_int a / 2 ^ 53"
      have "(of_int a :: rat) < of_int (2 ^ 53)" using assms(2) by (simp only: of_int_less_iff)
      then have "(of_int a :: rat) < 2 ^ 53" by simp
      then have c1: "c < 1" unfolding c_def by (simp only: divide_less_eq_1_pos zero_less_power zero_less_numeral)
      have ibpos: "0 < ib" using bpos by (simp add: ib_def)
      have "x / 2 ^ 53 = c * ib" by (simp add: x_def c_def ib_def)
      also have "\<dots> < 1 * ib" using c1 ibpos by (rule mult_strict_right_mono)
      finally show ?thesis by simp
    qed
    have u1: "ib \<le> u"
      unfolding ib_def u_def using r1(1) bpos by (simp add: divide_right_mono)
    have u2: "u \<le> 1 - ib"
    proof -
      have "(of_int r :: rat) \<le> of_int (b - 1)" using r1(2) by (simp only: of_int_le_iff)
      then have "of_int r / (of_int b :: rat) \<le> of_int (b - 1) / of_int b"
        using bpos by (simp add: divide_right_mono)
      also have "\<dots> = 1 - 1 / of_int b" using bpos by (simp add: field_simps)
      finally show ?thesis by (simp only: u_def ib_def)
    qed
    have lo: "of_int q \<le> fl x" using err small u1 xq by linarith
    have hi: "fl x < of_int q + 1" using err small u2 xq by linarith
    from lo hi have "\<lfloor>fl x\<rfloor> = q" by (rule floor_unique)
    then show ?thesis by (simp add: Math_floor_def js_div_def x_def q_def)
  qed
qed

lemma to_double_exact: "\<bar>n\<bar> < 2 ^ 53 \<Longrightarrow> to_double n = n"
  by (simp add: to_double_def fl_of_int_exact)

lemma js_add_exact: "\<bar>a + b\<bar> < 2 ^ 53 \<Longrightarrow> js_add a b = a + b"
  by (simp add: js_add_def to_double_exact)

text \<open>The \<open>reduce\<close> over non-negative totals is their exact sum while that stays below \<open>2^53\<close>.\<close>

lemma foldl_js_add_exact:
  assumes "\<forall>x \<in> set xs. 0 \<le> x" "0 \<le> acc" "acc + sum_list xs < 2 ^ 53"
  shows "foldl js_add acc xs = acc + sum_list xs"
  using assms
proof (induction xs arbitrary: acc)
  case Nil
  then show ?case by simp
next
  case (Cons x xs)
  have x: "0 \<le> x" using Cons.prems(1) by simp
  have rest: "0 \<le> sum_list xs" using Cons.prems(1) by (intro sum_list_nonneg) simp
  have "\<bar>acc + x\<bar> < 2 ^ 53" using x rest Cons.prems(2,3) by simp
  then have step: "js_add acc x = acc + x" by (rule js_add_exact)
  have "foldl js_add (acc + x) xs = (acc + x) + sum_list xs"
    using Cons.prems x by (intro Cons.IH) (simp_all add: add.assoc)
  then show ?case by (simp add: step)
qed

lemma pow2_mono: "a \<le> b \<Longrightarrow> pow2 a \<le> pow2 b"
proof -
  assume "a \<le> b"
  then have b: "b = a + int (nat (b - a))" by simp
  have "pow2 a * 1 \<le> pow2 a * 2 ^ nat (b - a)"
    using pow2_pos [of a] by (intro mult_left_mono) simp_all
  also have "\<dots> = pow2 (a + int (nat (b - a)))" by (rule pow2_add_nat [symmetric])
  finally show ?thesis using b by simp
qed

lemma floor_log2_mono:
  assumes "0 < x" "x \<le> y"
  shows "floor_log2 x \<le> floor_log2 y"
proof (rule ccontr)
  assume "\<not> floor_log2 x \<le> floor_log2 y"
  then have "floor_log2 y + 1 \<le> floor_log2 x" by simp
  then have "pow2 (floor_log2 y + 1) \<le> pow2 (floor_log2 x)" by (rule pow2_mono)
  also have "\<dots> \<le> x" using assms(1) by (rule floor_log2_spec(1))
  also have "\<dots> \<le> y" by (rule assms(2))
  finally have "pow2 (floor_log2 y + 1) \<le> y" .
  moreover have "y < pow2 (floor_log2 y + 1)"
    using assms by (intro floor_log2_spec(2)) simp
  ultimately show False by simp
qed

lemma round_half_even_mono:
  assumes "x \<le> y"
  shows "round_half_even x \<le> round_half_even y"
proof (cases "x = y")
  case True
  then show ?thesis by simp
next
  case False
  with assms have lt: "x < y" by simp
  have a: "of_int (round_half_even x) \<le> x + 1 / 2"
    using round_half_even_near [of x] by linarith
  have b: "y - 1 / 2 \<le> of_int (round_half_even y)"
    using round_half_even_near [of y] by linarith
  from a b lt have "(of_int (round_half_even x) :: rat) < of_int (round_half_even y) + 1"
    by linarith
  then have "(of_int (round_half_even x) :: rat) < of_int (round_half_even y + 1)" by simp
  then have "round_half_even x < round_half_even y + 1" by (simp only: of_int_less_iff)
  then show ?thesis by simp
qed

lemma fl_pos_eq:
  "0 < x \<Longrightarrow> fl x = of_int (round_half_even (x / pow2 (floor_log2 x - 52))) * pow2 (floor_log2 x - 52)"
  by (simp add: fl_def Let_def)

lemma fl_binade:
  assumes "0 < x"
  shows "pow2 (floor_log2 x) \<le> fl x" and "fl x \<le> pow2 (floor_log2 x + 1)"
proof -
  define e where "e = floor_log2 x - 52"
  define s where "s = pow2 e"
  define m where "m = round_half_even (x / s)"
  have s: "0 < s" unfolding s_def by (rule pow2_pos)
  have f: "fl x = of_int m * s" using assms by (simp add: fl_pos_eq e_def s_def m_def)
  have k: "pow2 (floor_log2 x) = s * 2 ^ 52"
  proof -
    have "floor_log2 x = e + int 52" by (simp add: e_def)
    then have "pow2 (floor_log2 x) = pow2 (e + int 52)" by (simp only:)
    also have "\<dots> = s * 2 ^ 52" unfolding s_def by (rule pow2_add_nat)
    finally show ?thesis .
  qed
  have k1: "pow2 (floor_log2 x + 1) = s * 2 ^ 53"
  proof -
    have "floor_log2 x + 1 = e + int 53" by (simp add: e_def)
    then have "pow2 (floor_log2 x + 1) = pow2 (e + int 53)" by (simp only:)
    also have "\<dots> = s * 2 ^ 53" unfolding s_def by (rule pow2_add_nat)
    finally show ?thesis .
  qed
  have "s * 2 ^ 52 \<le> x" using floor_log2_spec(1) [OF assms] by (simp only: k)
  then have "of_int (2 ^ 52) \<le> x / s" using s by (simp add: pos_le_divide_eq mult.commute)
  then have "round_half_even (of_int (2 ^ 52)) \<le> m" unfolding m_def by (rule round_half_even_mono)
  then have "2 ^ 52 \<le> m" by (simp only: round_half_even_of_int)
  then have "(of_int (2 ^ 52) :: rat) \<le> of_int m" by (simp only: of_int_le_iff)
  then have "2 ^ 52 * s \<le> of_int m * s" using s by (intro mult_right_mono) simp_all
  then show "pow2 (floor_log2 x) \<le> fl x" by (simp add: k f mult.commute)
  have "x < s * 2 ^ 53" using floor_log2_spec(2) [OF assms] by (simp only: k1)
  then have "x / s \<le> of_int (2 ^ 53)" using s by (simp add: pos_divide_le_eq mult.commute)
  then have "m \<le> round_half_even (of_int (2 ^ 53))" unfolding m_def by (rule round_half_even_mono)
  then have "m \<le> 2 ^ 53" by (simp only: round_half_even_of_int)
  then have "(of_int m :: rat) \<le> of_int (2 ^ 53)" by (simp only: of_int_le_iff)
  then have "of_int m * s \<le> 2 ^ 53 * s" using s by (intro mult_right_mono) simp_all
  then show "fl x \<le> pow2 (floor_log2 x + 1)" by (simp add: k1 f mult.commute)
qed

lemma fl_mono_pos:
  assumes "0 < x" "x \<le> y"
  shows "fl x \<le> fl y"
proof -
  have ypos: "0 < y" using assms by simp
  have le: "floor_log2 x \<le> floor_log2 y" using assms by (rule floor_log2_mono)
  show ?thesis
  proof (cases "floor_log2 x = floor_log2 y")
    case True
    define s where "s = pow2 (floor_log2 x - 52)"
    have s: "0 < s" unfolding s_def by (rule pow2_pos)
    have "x / s \<le> y / s" using assms(2) s by (simp add: divide_right_mono)
    then have "round_half_even (x / s) \<le> round_half_even (y / s)" by (rule round_half_even_mono)
    then have "(of_int (round_half_even (x / s)) :: rat) \<le> of_int (round_half_even (y / s))"
      by (simp only: of_int_le_iff)
    then have "of_int (round_half_even (x / s)) * s \<le> of_int (round_half_even (y / s)) * s"
      using s by (intro mult_right_mono) simp_all
    then show ?thesis
      using assms(1) ypos by (simp add: fl_pos_eq True [symmetric] s_def)
  next
    case False
    with le have "floor_log2 x + 1 \<le> floor_log2 y" by simp
    then have "pow2 (floor_log2 x + 1) \<le> pow2 (floor_log2 y)" by (rule pow2_mono)
    with fl_binade(2) [OF assms(1)] fl_binade(1) [OF ypos] show ?thesis by linarith
  qed
qed

lemma fl_minus: "fl (- x) = - fl x"
  by (simp add: fl_def Let_def)

lemma fl_pos: "0 < x \<Longrightarrow> 0 < fl x"
  using fl_binade(1) [of x] pow2_pos [of "floor_log2 x"] by linarith

text \<open>Rounding to a double keeps the order.\<close>

lemma fl_mono:
  assumes "x \<le> y"
  shows "fl x \<le> fl y"
proof -
  consider "0 < x" | "x \<le> 0" "0 \<le> y" | "y < 0" using assms by linarith
  then show ?thesis
  proof cases
    case 1
    then show ?thesis using assms by (rule fl_mono_pos)
  next
    case 2
    have "fl x \<le> 0"
    proof (cases "x = 0")
      case True
      then show ?thesis by (simp add: fl_zero)
    next
      case False
      with 2 have "0 < - x" by simp
      then have "0 < fl (- x)" by (rule fl_pos)
      then show ?thesis by (simp add: fl_minus)
    qed
    moreover have "0 \<le> fl y"
    proof (cases "y = 0")
      case True
      then show ?thesis by (simp add: fl_zero)
    next
      case False
      with 2 have "0 < y" by simp
      then have "0 < fl y" by (rule fl_pos)
      then show ?thesis by simp
    qed
    ultimately show ?thesis by simp
  next
    case 3
    then have "0 < - y" "- y \<le> - x" using assms by simp_all
    then have "fl (- y) \<le> fl (- x)" by (rule fl_mono_pos)
    then show ?thesis by (simp add: fl_minus)
  qed
qed

lemma to_double_mono: "a \<le> b \<Longrightarrow> to_double a \<le> to_double b"
  unfolding to_double_def by (intro floor_mono fl_mono) simp

lemma to_double_fl: "of_int (to_double n) = fl (of_int n)"
proof (cases "\<bar>n\<bar> < 2 ^ 53")
  case True
  then show ?thesis by (simp add: to_double_exact fl_of_int_exact)
next
  case False
  define a where "a = nat \<bar>n\<bar>"
  define x :: rat where "x = \<bar>of_int n\<bar>"
  have a53: "2 ^ 53 \<le> a" using False by (simp add: a_def le_nat_iff)
  then have apos: "0 < a" by (simp add: order_less_le_trans [of 0 "2 ^ 53"])
  have xa: "x = rat_of_nat a" by (simp add: x_def a_def)
  have x1: "1 \<le> x" using apos by (simp add: xa)
  have fx: "nat \<lfloor>x\<rfloor> = a" by (simp add: xa)
  have "a < 2 ^ bit_length a" using bit_length_bounds [OF apos] by simp
  with a53 have "(2::nat) ^ 53 < 2 ^ bit_length a" by (rule le_less_trans)
  then have bl: "53 < bit_length a" by (simp only: power_strict_increasing_iff)
  have k: "floor_log2 x = int (bit_length a - 1)"
    using x1 bl by (simp add: floor_log2_def fx)
  define j where "j = bit_length a - 1 - 52"
  have e: "floor_log2 x - 52 = int j" using bl by (simp add: k j_def)
  define m where "m = round_half_even (x / pow2 (int j))"
  have n0: "rat_of_int n \<noteq> 0" using False by auto
  have "fl (of_int n) = sgn (rat_of_int n) * of_int m * pow2 (int j)"
    using n0 by (simp add: fl_def Let_def x_def [symmetric] e m_def)
  also have "\<dots> = of_int (sgn n * m * 2 ^ j)"
  proof -
    have "sgn (rat_of_int n) = of_int (sgn n)"
      by (cases "n < 0"; cases "n = 0") (simp_all add: sgn_if)
    then show ?thesis by (simp add: pow2_nat)
  qed
  finally have "fl (of_int n) = of_int (sgn n * m * 2 ^ j)" .
  then show ?thesis by (simp add: to_double_def)
qed

text \<open>
  Above \<open>2^53\<close> the doubles thin out: \<open>2^53 + 1\<close> is not one, the sum \<open>2^53 + 1\<close> comes out
  as \<open>2^53\<close>, and a quotient can be rounded up to the next integer before
  \<open>Math.floor\<close> sees it.
\<close>

lemma fl_2_53_1: "fl 9007199254740993 = 9007199254740992"
proof -
  have bl: "bit_length 9007199254740993 = 54" by (simp add: bit_length.simps)
  have k: "floor_log2 9007199254740993 = 53" by (simp add: floor_log2_def bl)
  have p: "pow2 1 = 2" by (simp add: pow2_def)
  have f: "\<lfloor>(9007199254740993::rat) / 2\<rfloor> = 4503599627370496"
    by (rule floor_unique) simp_all
  have m: "round_half_even (9007199254740993 / 2) = 4503599627370496"
    by (simp add: round_half_even_def f Let_def)
  show ?thesis by (simp add: fl_def Let_def k p m)
qed

lemma js_add_above_2_53: "js_add 9007199254740992 1 = 9007199254740992"
  by (simp add: js_add_def to_double_def fl_2_53_1)

lemma hours_above_2_53:
  "Math_floor (js_div 253327479039593984 3600) = 70368744177665"
proof -
  define x :: rat where "x = 15832967439974624 / 225"
  have q: "(253327479039593984::rat) / 3600 = x" by (simp add: x_def)
  have fq: "\<lfloor>x\<rfloor> = 70368744177664"
    unfolding x_def by (rule floor_unique) simp_all
  have bl: "bit_length 70368744177664 = 47" by (simp add: bit_length.simps)
  have x1: "1 \<le> x" "x \<noteq> 0" "\<bar>x\<bar> = x" "sgn x = 1" by (simp_all add: x_def)
  have k: "floor_log2 x - 52 = - 6" using x1(1) by (simp add: floor_log2_def fq bl)
  have xs: "x / pow2 (- 6) = 1013309916158375936 / 225" by (simp add: pow2_def x_def)
  have f: "\<lfloor>(1013309916158375936::rat) / 225\<rfloor> = 4503599627370559"
    by (rule floor_unique) simp_all
  have m: "round_half_even (x / pow2 (- 6)) = 4503599627370560"
    unfolding xs by (simp add: round_half_even_def f Let_def)
  have "fl x = sgn x * of_int (round_half_even (\<bar>x\<bar> / pow2 (floor_log2 \<bar>x\<bar> - 52))) *
      pow2 (floor_log2 \<bar>x\<bar> - 52)"
    using x1(2) by (simp only: fl_def Let_def if_False)
  also have "\<dots> = 4503599627370560 * pow2 (- 6)" by (simp only: x1 k m mult_1 of_int_numeral)
  also have "\<dots> = 70368744177665" by (simp add: pow2_def)
  finally show ?thesis by (simp add: Math_floor_def js_div_def q)
qed

section \<open>Helper lemmas: formatDuration\<close>

text \<open>Below \<open>2^53\<close> the fields of \<open>formatDuration\<close> are the hours, minutes and seconds.\<close>

lemma formatDuration_safe:
  assumes "0 \<le> seconds" "seconds < 2 ^ 53"
  shows "formatDuration seconds =
       (if seconds div 3600 > 0 then
          digits (nat (seconds div 3600)) @ ''h '' @
          digits (nat (seconds mod 3600 div 60)) @ ''m '' @
          digits (nat (seconds mod 60)) @ ''s''
        else if seconds mod 3600 div 60 > 0 then
          digits (nat (seconds mod 3600 div 60)) @ ''m '' @ digits (nat (seconds mod 60)) @ ''s''
        else digits (nat (seconds mod 60)) @ ''s'')"
proof -
  have hours: "Math_floor (js_div (of_int seconds) 3600) = seconds div 3600"
    using floor_js_div_exact [of seconds 3600] assms by simp
  have m0: "0 \<le> seconds mod 3600" "seconds mod 3600 < 2 ^ 53"
  proof -
    show "0 \<le> seconds mod 3600" by simp
    have "seconds mod 3600 < 3600" by simp
    then show "seconds mod 3600 < 2 ^ 53" by simp
  qed
  have minutes: "Math_floor (js_div (of_int (seconds mod 3600)) 60) = seconds mod 3600 div 60"
    using floor_js_div_exact [of "seconds mod 3600" 60] m0 by simp
  have r3600: "js_rem seconds 3600 = seconds mod 3600"
    using assms(1) by (simp add: js_rem_nonneg)
  have r60: "js_rem seconds 60 = seconds mod 60"
    using assms(1) by (simp add: js_rem_nonneg)
  have h: "js_string_of_int (seconds div 3600) = digits (nat (seconds div 3600))"
    using assms(1) by (intro js_string_of_int_nonneg) (simp add: pos_imp_zdiv_nonneg_iff)
  have m: "js_string_of_int (seconds mod 3600 div 60) = digits (nat (seconds mod 3600 div 60))"
    by (intro js_string_of_int_nonneg) (simp add: pos_imp_zdiv_nonneg_iff)
  have r: "js_string_of_int (seconds mod 60) = digits (nat (seconds mod 60))"
    by (intro js_string_of_int_nonneg) simp
  show ?thesis
    unfolding formatDuration_def r3600 r60 hours minutes Let_def h m r ..
qed

lemma formatDuration_above_2_53:
  "formatDuration 253327479039593984 = ''70368744177665h 59m 44s''"
proof -
  have m: "Math_floor (js_div (of_int 3584) (of_int 60)) = 3584 div 60"
    by (rule floor_js_div_exact) simp_all
  have d: "digits 70368744177665 = ''70368744177665''" "digits 59 = ''59''" "digits 44 = ''44''"
    by (simp_all add: digits.simps digit_char_def)
  show ?thesis
    using m by (simp add: formatDuration_def Let_def hours_above_2_53 js_rem_def
        js_string_of_int_def d)
qed

section \<open>Helper lemmas: the query\<close>

text \<open>\<open>ORDER BY total_seconds DESC\<close>: the rows come out with their totals descending.\<close>

lemma sorted_run_query: "sorted_wrt (\<ge>) (map total_seconds (run_query w rs))"
proof -
  have "sorted (map (\<lambda>row. - total_seconds row) (run_query w rs))"
    by (simp add: run_query_def order_by_total_seconds_desc_def)
  then show ?thesis
    by (simp add: sorted_wrt_map sorted_wrt_iff_nth_less)
qed

lemma sorted_js_rows: "sorted_wrt (\<ge>) (map total_seconds (map js_row (run_query w rs)))"
proof -
  have "sorted_wrt (\<lambda>a b. total_seconds b \<le> total_seconds a) (run_query w rs)"
    using sorted_run_query [of w rs] by (simp add: sorted_wrt_map)
  then have "sorted_wrt (\<lambda>a b. to_double (total_seconds b) \<le> to_double (total_seconds a))
      (run_query w rs)"
    by (rule sorted_wrt_mono_rel [rotated]) (simp add: to_double_mono)
  then show ?thesis by (simp add: sorted_wrt_map js_row_def)
qed

lemma getUsageStats_ok:
  "getUsageStats now None arg d =
     (let p = (case arg of None \<Rightarrow> ''today'' | Some p \<Rightarrow> p);
          rows = map js_row (run_query (period_where now p) (usage_logs d));
          total_time = foldl js_add 0 (map total_seconds rows)
      in Inr \<lparr>apps = map (\<lambda>row. \<lparr>appName = row_app_name row, totalSeconds = total_seconds row,
                                    sessionCount = session_count row,
                                    totalTime = formatDuration (total_seconds row),
                                    percentage = percentage_of (total_seconds row) total_time\<rparr>) rows,
              stats_totalTime = formatDuration total_time,
              stats_totalSeconds = total_time,
              period = p\<rparr>)"
  by (simp add: getUsageStats_def Let_def foldl_map)

text \<open>Two parts of the statistics that hold as specified: the order, and the empty total.\<close>

lemma getUsageStats_sorted:
  "getUsageStats now None arg d = Inr r \<Longrightarrow> sorted_wrt (\<ge>) (map totalSeconds (apps r))"
  using sorted_js_rows [of "period_where now (case arg of None \<Rightarrow> ''today'' | Some p \<Rightarrow> p)" "usage_logs d"]
  by (auto simp: getUsageStats_ok Let_def comp_def)

lemma percentage_of_zero_total: "percentage_of row_total 0 = 0"
  by (simp add: percentage_of_def)

section \<open>Helper lemmas: evaluations\<close>

lemma iso_date_2024_01_02: "iso_date 1704155400000 = ''2024-01-02''"
  by code_simp

lemma local_date_2024_01_01: "local_date (- 18000000) 1704155400000 = ''2024-01-01''"
  by code_simp

lemma iso_date_50000: "iso_date 50000 = ''1970-01-01''"
  by code_simp

lemma period_where_month: "period_where 50000 ''month'' = DateEq ''1970-01-01''"
  by (simp add: period_where_def Let_def split_T_first_toISOString iso_date_50000)

lemma percentage_of_23_40: "percentage_of 23 40 = 57"
  by code_simp

lemma percentage_of_17_40: "percentage_of 17 40 = 43"
  by code_simp

lemma percentage_of_23_23: "percentage_of 23 23 = 100"
  by code_simp

text \<open>The first example store is what the tracker writes for Safari, Mail, Terminal.\<close>

lemma store_23_17_reached:
  "db (track_all
        [(Inr ''Safari'', 0, None), (Inr ''Mail'', 23000, None), (Inr ''Terminal'', 40000, None)]
        (new_tracker \<lparr>usage_logs = [], last_id = 0\<rparr>)) = store_23_17"
  by code_simp

lemma formatDuration_small:
  "formatDuration 23 = ''23s''" "formatDuration 17 = ''17s''" "formatDuration 40 = ''40s''"
  by (simp_all add: formatDuration_safe digits.simps digit_char_def)

lemma to_double_small: "to_double 23 = 23" "to_double 17 = 17"
  by (simp_all add: to_double_exact)

lemma js_add_small: "js_add 0 23 = 23" "js_add 23 17 = 40"
  by (simp_all add: js_add_exact)

section \<open>The tracking state machine\<close>

text \<open>
  C1, as claimed: samples \<open>A, A, B, B, C\<close> at any times \<open>t0 .. t4\<close> write exactly two
  attributions, one for \<open>A\<close> and one for \<open>B\<close>. They do not when a stay is shorter than
  a second: \<open>trackCurrentApp\<close> writes only \<open>if (usageTime > 0)\<close>. With the first three
  samples 100 ms apart Safari gets no attribution at all, and one row is written, not
  two.
\<close>

theorem switch_sequence_counterexample:
  "attributions (db (track_all
      [(Inr ''Safari'', 0, None), (Inr ''Safari'', 100, None), (Inr ''Mail'', 200, None),
       (Inr ''Mail'', 5200, None), (Inr ''Terminal'', 10200, None)]
      (new_tracker \<lparr>usage_logs = [], last_id = 0\<rparr>))) =
   [(''Mail'', 10)]"
  by (simp add: trackCurrentApp_def logUsage_def sendUsageUpdate_def new_tracker_def
      attributions_def time_value_def Let_def)

text \<open>
  C1, amended: samples \<open>A, A, B, B, C\<close> at times \<open>t0 .. t4\<close> (milliseconds), taken by a
  tracker that has no current app, write exactly two attributions,
  \<open>(A, \<lfloor>(t2 - t0) / 1000\<rfloor>)\<close> and then \<open>(B, \<lfloor>(t4 - t2) / 1000\<rfloor>)\<close>, provided each of the two
  stays lasts at least one whole second. Here \<open>A\<close> and \<open>B\<close> are app names, so not empty,
  and the store accepts the two inserts. What the driver answers at the other three
  samples does not matter: they make no insert.
\<close>

theorem switch_sequence_attributions:
  assumes "currentApp s = None" "A \<noteq> B" "B \<noteq> C" "A \<noteq> []" "B \<noteq> []"
    and "1000 \<le> t2 - t0" "1000 \<le> t4 - t2"
  shows "attributions (db (track_all
            [(Inr A, t0, io0), (Inr A, t1, io1), (Inr B, t2, None), (Inr B, t3, io3),
             (Inr C, t4, None)] s)) =
         attributions (db s) @ [(A, (t2 - t0) div 1000), (B, (t4 - t2) div 1000)]"
proof -
  let ?s0 = "trackCurrentApp (Inr A) t0 io0 s"
  let ?s1 = "trackCurrentApp (Inr A) t1 io1 ?s0"
  let ?s2 = "trackCurrentApp (Inr B) t2 None ?s1"
  let ?s3 = "trackCurrentApp (Inr B) t3 io3 ?s2"
  let ?s4 = "trackCurrentApp (Inr C) t4 None ?s3"
  have s0: "?s0 = s\<lparr>currentApp := Some A, currentAppStartTime := Some t0\<rparr>"
    using assms(1) by (rule trackCurrentApp_first)
  have s1: "?s1 = s\<lparr>currentApp := Some A, currentAppStartTime := Some t0\<rparr>"
    by (simp add: s0 trackCurrentApp_same)
  have c1: "currentApp ?s1 = Some A" "currentAppStartTime ?s1 = Some t0" "db ?s1 = db s"
    by (simp_all only: s1) simp_all
  note sw2 = trackCurrentApp_switch [OF c1(1) assms(4) assms(2) c1(2) assms(6)]
  have s3: "?s3 = ?s2" by (rule trackCurrentApp_same) (rule sw2(1))
  have c3: "currentApp ?s3 = Some B" "currentAppStartTime ?s3 = Some t2"
    unfolding s3 by (rule sw2(1), rule sw2(2))
  have "attributions (db ?s4) = attributions (db ?s3) @ [(B, (t4 - t2) div 1000)]"
    by (rule trackCurrentApp_switch(3) [OF c3(1) assms(5) assms(3) c3(2) assms(7)])
  also have "attributions (db ?s3) = attributions (db s) @ [(A, (t2 - t0) div 1000)]"
    unfolding s3 using sw2(3) by (simp only: c1(3))
  finally show ?thesis by simp
qed

theorem switch_sequence_attributions_witness:
  "attributions (db (track_all
      [(Inr ''Safari'', 0, None), (Inr ''Safari'', 5000, None), (Inr ''Mail'', 10300, None),
       (Inr ''Mail'', 15000, None), (Inr ''Terminal'', 20000, None)]
      (new_tracker \<lparr>usage_logs = [], last_id = 0\<rparr>))) =
   [(''Safari'', 10), (''Mail'', 9)]"
proof -
  have "attributions (db (track_all
      [(Inr ''Safari'', 0, None), (Inr ''Safari'', 5000, None), (Inr ''Mail'', 10300, None),
       (Inr ''Mail'', 15000, None), (Inr ''Terminal'', 20000, None)]
      (new_tracker \<lparr>usage_logs = [], last_id = 0\<rparr>))) =
    attributions (db (new_tracker \<lparr>usage_logs = [], last_id = 0\<rparr>)) @
      [(''Safari'', (10300 - 0) div 1000), (''Mail'', (20000 - 10300) div 1000)]"
    by (rule switch_sequence_attributions) (simp_all add: new_tracker_def)
  then show ?thesis by (simp add: new_tracker_def attributions_def)
qed

text \<open>
  C2. In a tracking session whose current app \<open>X\<close> (a name, not empty) was set at \<open>t0\<close>,
  \<open>stopTracking\<close> at \<open>t1\<close> writes the one attribution \<open>(X, \<lfloor>(t1 - t0) / 1000\<rfloor>)\<close> when at
  least one whole second has passed and the store accepts the insert, and writes nothing
  when \<open>t1 = t0\<close>; in every case the timer is cancelled, its handle is cleared and
  \<open>isTracking\<close> is false.
\<close>

theorem stopTracking_final_flush:
  assumes "isTracking s" "currentApp s = Some X" "X \<noteq> []" "currentAppStartTime s = Some t0"
  shows "(1000 \<le> t1 - t0 \<longrightarrow>
            attributions (db (stopTracking t1 None s)) =
              attributions (db s) @ [(X, (t1 - t0) div 1000)]) \<and>
         (t1 = t0 \<longrightarrow> db (stopTracking t1 io s) = db s) \<and>
         \<not> isTracking (stopTracking t1 io s) \<and>
         trackingInterval (stopTracking t1 io s) = None \<and>
         (\<forall>h. trackingInterval s = Some h \<longrightarrow> h \<notin> intervals (stopTracking t1 io s))"
  using assms
  by (auto simp: stopTracking_def logUsage_def attributions_def Let_def
      split: option.splits sum.splits prod.splits)

theorem stopTracking_final_flush_witness:
  "attributions (db (stopTracking 12500 None
      (startTracking (Inr ''Safari'') 0 None (new_tracker \<lparr>usage_logs = [], last_id = 0\<rparr>)))) =
     [(''Safari'', 12)] \<and>
   db (stopTracking 0 None
      (startTracking (Inr ''Safari'') 0 None (new_tracker \<lparr>usage_logs = [], last_id = 0\<rparr>))) =
     \<lparr>usage_logs = [], last_id = 0\<rparr> \<and>
   trackingInterval
      (startTracking (Inr ''Safari'') 0 None (new_tracker \<lparr>usage_logs = [], last_id = 0\<rparr>)) =
     Some 0 \<and>
   0 \<notin> intervals (stopTracking 12500 None
      (startTracking (Inr ''Safari'') 0 None (new_tracker \<lparr>usage_logs = [], last_id = 0\<rparr>)))"
  using
    stopTracking_final_flush [of
      "startTracking (Inr ''Safari'') 0 None (new_tracker \<lparr>usage_logs = [], last_id = 0\<rparr>)"
      "''Safari''" 0 12500 None]
    stopTracking_final_flush [of
      "startTracking (Inr ''Safari'') 0 None (new_tracker \<lparr>usage_logs = [], last_id = 0\<rparr>)"
      "''Safari''" 0 0 None]
  by (simp add: startTracking_def trackCurrentApp_def new_tracker_def attributions_def Let_def)

text \<open>
  C3. The claim: after \<open>stopTracking\<close> the session is empty again, \<open>currentApp\<close> and
  \<open>currentAppStartTime\<close> unset. The code: a session that saw Safari from 0 and is
  stopped at 10000 still has \<open>currentApp = Safari\<close> since 0; restarted, its first sample
  (Mail at 20000) attributes the whole 20 seconds to Safari, on top of the 10 seconds
  written by the stop.
\<close>

theorem stopTracking_keeps_currentApp:
  "currentApp (stopTracking 10000 None
      (startTracking (Inr ''Safari'') 0 None (new_tracker \<lparr>usage_logs = [], last_id = 0\<rparr>))) =
     Some ''Safari'' \<and>
   currentAppStartTime (stopTracking 10000 None
      (startTracking (Inr ''Safari'') 0 None (new_tracker \<lparr>usage_logs = [], last_id = 0\<rparr>))) =
     Some 0 \<and>
   attributions (db (startTracking (Inr ''Mail'') 20000 None (stopTracking 10000 None
      (startTracking (Inr ''Safari'') 0 None (new_tracker \<lparr>usage_logs = [], last_id = 0\<rparr>))))) =
     [(''Safari'', 10), (''Safari'', 20)]"
  by (simp add: startTracking_def stopTracking_def trackCurrentApp_def logUsage_def
      sendUsageUpdate_def new_tracker_def attributions_def time_value_def Let_def)

text \<open>
  C4, as claimed: when a switch is detected and the insert fails, \<open>currentApp\<close> becomes
  the new app and \<open>currentAppStartTime\<close> the sample time. It does not: with Safari
  current since 0, the sample Mail at 10000 whose insert fails leaves Safari current
  since 0.
\<close>

theorem write_failure_counterexample:
  "currentApp (trackCurrentApp (Inr ''Mail'') 10000 (Some SqliteError)
      (trackCurrentApp (Inr ''Safari'') 0 None (new_tracker \<lparr>usage_logs = [], last_id = 0\<rparr>))) \<noteq>
     Some ''Mail'' \<and>
   currentAppStartTime (trackCurrentApp (Inr ''Mail'') 10000 (Some SqliteError)
      (trackCurrentApp (Inr ''Safari'') 0 None (new_tracker \<lparr>usage_logs = [], last_id = 0\<rparr>))) \<noteq>
     Some 10000"
  by (simp add: trackCurrentApp_def logUsage_def new_tracker_def time_value_def Let_def)

text \<open>
  C4, amended: when a switch is detected, at least one whole second has passed and the
  insert fails, the sample changes nothing. The rejected \<open>logUsage\<close> ends the \<open>try\<close>
  block before the assignments, so the tracker is exactly as before the sample: the old
  app is still current since its old start time, and the next sample sees the same
  switch again.
\<close>

theorem write_failure_leaves_state:
  assumes "currentApp s = Some cur" "cur \<noteq> []" "cur \<noteq> a"
    and "0 < (now - time_value (currentAppStartTime s)) div 1000"
  shows "trackCurrentApp (Inr a) now (Some err) s = s"
  using assms by (simp add: trackCurrentApp_def logUsage_def Let_def)

theorem write_failure_leaves_state_witness:
  "trackCurrentApp (Inr ''Mail'') 10000 (Some SqliteError)
      (trackCurrentApp (Inr ''Safari'') 0 None (new_tracker \<lparr>usage_logs = [], last_id = 0\<rparr>)) =
   trackCurrentApp (Inr ''Safari'') 0 None (new_tracker \<lparr>usage_logs = [], last_id = 0\<rparr>)"
  by (rule write_failure_leaves_state [where cur = "''Safari''"])
     (simp_all add: trackCurrentApp_def new_tracker_def time_value_def)

text \<open>
  C5. A run of samples that all observe the same app \<open>A\<close> (a failed probe observes
  nothing), taken by a tracker whose current app is unset or already \<open>A\<close>, writes
  nothing: the store is the same afterwards, whatever the clock and the driver say.
\<close>

theorem no_switch_no_write:
  assumes "currentApp s = None \<or> currentApp s = Some A"
    and "\<forall>x \<in> set samples. fst x = Inr A \<or> isl (fst x)"
  shows "db (track_all samples s) = db s"
  using assms
proof (induction samples arbitrary: s)
  case Nil
  then show ?case by simp
next
  case (Cons x xs)
  obtain p now io where x: "x = (p, now, io)" by (cases x) auto
  from Cons.prems(2) x have p: "p = Inr A \<or> isl p" by simp
  let ?s' = "trackCurrentApp p now io s"
  have keep: "db ?s' = db s \<and> (currentApp ?s' = None \<or> currentApp ?s' = Some A)"
  proof (cases p)
    case (Inl e)
    with Cons.prems(1) show ?thesis by (simp add: trackCurrentApp_probe_failed)
  next
    case (Inr a)
    with p have "a = A" by simp
    with Inr Cons.prems(1) show ?thesis
      by (auto simp: trackCurrentApp_first trackCurrentApp_same)
  qed
  have "db (track_all xs ?s') = db ?s'"
    using keep Cons.prems(2) by (intro Cons.IH) auto
  with keep x show ?case by simp
qed

theorem no_switch_no_write_witness:
  "db (track_all
      [(Inr ''Safari'', 0, None), (Inl ProbeError, 5000, None),
       (Inr ''Safari'', 10000, Some SqliteError), (Inr ''Safari'', 15000, None)]
      (new_tracker \<lparr>usage_logs = [], last_id = 0\<rparr>)) =
   \<lparr>usage_logs = [], last_id = 0\<rparr>"
  using no_switch_no_write [of "new_tracker \<lparr>usage_logs = [], last_id = 0\<rparr>" "''Safari''"
      "[(Inr ''Safari'', 0, None), (Inl ProbeError, 5000, None),
        (Inr ''Safari'', 10000, Some SqliteError), (Inr ''Safari'', 15000, None)]"]
  by (simp add: new_tracker_def)

text \<open>
  C9. \<open>startTracking\<close> on a session that is tracking changes nothing, whatever the
  probe, the clock and the store would have answered; so a second call right after a
  first leaves the state of the first: \<open>isTracking\<close> true, the same timer handle, the
  same set of timers, \<open>currentApp\<close> and \<open>currentAppStartTime\<close> untouched.
\<close>

theorem startTracking_idempotent:
  "(isTracking s \<longrightarrow> startTracking p n io s = s) \<and>
   startTracking p2 n2 io2 (startTracking p1 n1 io1 s) = startTracking p1 n1 io1 s \<and>
   isTracking (startTracking p1 n1 io1 s)"
  by (simp add: startTracking_def Let_def trackCurrentApp_frame)

theorem startTracking_idempotent_witness:
  "isTracking (startTracking (Inr ''Safari'') 0 None (new_tracker \<lparr>usage_logs = [], last_id = 0\<rparr>)) \<and>
   startTracking (Inr ''Mail'') 7000 None
      (startTracking (Inr ''Safari'') 0 None (new_tracker \<lparr>usage_logs = [], last_id = 0\<rparr>)) =
   startTracking (Inr ''Safari'') 0 None (new_tracker \<lparr>usage_logs = [], last_id = 0\<rparr>) \<and>
   intervals (startTracking (Inr ''Mail'') 7000 None
      (startTracking (Inr ''Safari'') 0 None (new_tracker \<lparr>usage_logs = [], last_id = 0\<rparr>))) = {0}"
  using startTracking_idempotent [of
      "startTracking (Inr ''Safari'') 0 None (new_tracker \<lparr>usage_logs = [], last_id = 0\<rparr>)"
      "Inr ''Mail''" 7000 None]
  by (simp add: startTracking_def trackCurrentApp_def new_tracker_def Let_def)

section \<open>The usage store\<close>

text \<open>
  C6, as claimed: the row \<open>logUsage\<close> inserts carries the calendar date of the tracker's
  local timezone. It carries the UTC date: at 2024-01-02T00:30:00Z a tracker five hours
  behind UTC, where it is still the evening of 2024-01-01, writes \<open>2024-01-02\<close>.
\<close>

theorem logUsage_local_date_counterexample:
  "(case logUsage 1704155400000 None ''Safari'' 10 \<lparr>usage_logs = [], last_id = 0\<rparr> of
      Inl err \<Rightarrow> []
    | Inr (lastID, d') \<Rightarrow> map date (usage_logs d')) = [''2024-01-02''] \<and>
   local_date (- 18000000) 1704155400000 = ''2024-01-01''"
  by (simp add: logUsage_def Let_def split_T_first_toISOString iso_date_2024_01_02
      local_date_2024_01_01)

text \<open>
  C6, amended: every \<open>logUsage\<close> call that the store accepts appends exactly one row to
  the table, with the given app name and duration, whose date field is the current
  calendar date in UTC (\<open>toISOString\<close> up to its \<open>T\<close>); from 1970 to the end of the year
  9999 that date has the shape \<open>YYYY-MM-DD\<close>.
\<close>

theorem logUsage_inserts_utc_date:
  "\<exists>row. logUsage now None name secs d =
            Inr (Suc (last_id d),
                 d\<lparr>usage_logs := usage_logs d @ [row], last_id := Suc (last_id d)\<rparr>) \<and>
          app_name row = name \<and> duration_seconds row = secs \<and>
          date row = local_date 0 now \<and>
          (0 \<le> now \<and> now < 253402300800000 \<longrightarrow> is_YYYY_MM_DD (date row))"
  by (rule exI [of _ "\<lparr>log_id = Suc (last_id d), app_name = name, duration_seconds = secs,
        logged_at = CURRENT_TIMESTAMP now, date = iso_date now\<rparr>"])
     (simp add: logUsage_def Let_def split_T_first_toISOString local_date_def iso_date_format)

theorem logUsage_inserts_utc_date_witness:
  "\<exists>row. logUsage 1704155400000 None ''Safari'' 10 \<lparr>usage_logs = [], last_id = 0\<rparr> =
            Inr (1, \<lparr>usage_logs = [row], last_id = 1\<rparr>) \<and>
          date row = ''2024-01-02'' \<and> is_YYYY_MM_DD (date row)"
  using logUsage_inserts_utc_date [of 1704155400000 "''Safari''" 10
      "\<lparr>usage_logs = [], last_id = 0\<rparr>"]
  by (auto simp: local_date_def iso_date_2024_01_02)

text \<open>
  C7. The claim: every percentage is \<open>round(100 * totalSeconds / grandTotal)\<close>. With 23
  seconds of Safari and 17 of Mail the share of Safari is exactly 57.5 percent, which
  rounds to 58; \<open>getUsageStats\<close> answers 57. The double \<open>23 / 40\<close> lies just below
  0.575, its product with 100 is the double 57.49999999999999, and \<open>Math.round\<close> takes
  that down.
\<close>

theorem percentage_tie_rounds_down:
  "getUsageStats 50000 None (Some ''all'') store_23_17 =
     Inr \<lparr>apps =
            [\<lparr>appName = ''Safari'', totalSeconds = 23, sessionCount = 1, totalTime = ''23s'',
              percentage = 57\<rparr>,
             \<lparr>appName = ''Mail'', totalSeconds = 17, sessionCount = 1, totalTime = ''17s'',
              percentage = 43\<rparr>],
          stats_totalTime = ''40s'', stats_totalSeconds = 40, period = ''all''\<rparr> \<and>
   spec_percentage 23 40 = 58"
  by (simp add: getUsageStats_ok store_23_17_def period_where_def run_query_def
      group_by_app_name_def order_by_total_seconds_desc_def Let_def js_row_def
      to_double_small js_add_small percentage_of_23_40
      percentage_of_17_40 formatDuration_small spec_percentage_def round_def)

text \<open>
  C10. When the query succeeds, whatever the store holds and whatever string the period
  is: \<open>totalSeconds\<close> is the sum of the apps' \<open>totalSeconds\<close> as JavaScript adds them, from
  the first app on, and it is their exact sum when they are not negative and that sum is
  below \<open>2^53\<close>; \<open>totalTime\<close> is \<open>formatDuration\<close> of it, and \<open>period\<close> is the argument as
  given. A period that is none of the four names is answered with the rows of
  \<open>'today'\<close>: the result differs from that of \<open>'today'\<close> in its \<open>period\<close> field only. (A
  call without argument is the call with \<open>'today'\<close>.)
\<close>

theorem getUsageStats_summary:
  "\<exists>r. getUsageStats now None (Some p) d = Inr r \<and>
       stats_totalSeconds r = foldl js_add 0 (map totalSeconds (apps r)) \<and>
       ((\<forall>a \<in> set (apps r). 0 \<le> totalSeconds a) \<and>
        sum_list (map totalSeconds (apps r)) < 2 ^ 53 \<longrightarrow>
          stats_totalSeconds r = sum_list (map totalSeconds (apps r))) \<and>
       stats_totalTime r = formatDuration (stats_totalSeconds r) \<and>
       period r = p \<and>
       (p \<notin> {''today'', ''yesterday'', ''week'', ''all''} \<longrightarrow>
          getUsageStats now None (Some ''today'') d = Inr (r\<lparr>period := ''today''\<rparr>)) \<and>
       getUsageStats now None None d = getUsageStats now None (Some ''today'') d"
proof -
  define rows where "rows = map js_row (run_query (period_where now p) (usage_logs d))"
  define total_time where "total_time = foldl js_add 0 (map total_seconds rows)"
  define r where "r =
     \<lparr>apps = map (\<lambda>row. \<lparr>appName = row_app_name row, totalSeconds = total_seconds row,
                           sessionCount = session_count row,
                           totalTime = formatDuration (total_seconds row),
                           percentage = percentage_of (total_seconds row) total_time\<rparr>) rows,
      stats_totalTime = formatDuration total_time,
      stats_totalSeconds = total_time,
      period = p\<rparr>"
  have ok: "getUsageStats now None (Some p) d = Inr r"
    by (simp add: getUsageStats_ok Let_def r_def total_time_def rows_def)
  have ts: "map totalSeconds (apps r) = map total_seconds rows"
    by (simp add: r_def comp_def)
  have sum: "stats_totalSeconds r = foldl js_add 0 (map totalSeconds (apps r))"
    by (simp only: ts) (simp add: r_def total_time_def)
  have exact: "stats_totalSeconds r = sum_list (map totalSeconds (apps r))"
    if "\<forall>a \<in> set (apps r). 0 \<le> totalSeconds a"
      and "sum_list (map totalSeconds (apps r)) < 2 ^ 53"
  proof -
    have "\<forall>x \<in> set (map totalSeconds (apps r)). 0 \<le> x" using that(1) by simp
    then have "foldl js_add 0 (map totalSeconds (apps r)) = 0 + sum_list (map totalSeconds (apps r))"
      using that(2) by (intro foldl_js_add_exact) simp_all
    then show ?thesis by (simp add: sum)
  qed
  have fmt: "stats_totalTime r = formatDuration (stats_totalSeconds r)" by (simp add: r_def)
  have per: "period r = p" by (simp add: r_def)
  have other: "getUsageStats now None (Some ''today'') d = Inr (r\<lparr>period := ''today''\<rparr>)"
    if "p \<notin> {''today'', ''yesterday'', ''week'', ''all''}"
    using that
    by (simp add: getUsageStats_ok Let_def r_def total_time_def rows_def period_where_def)
  have none: "getUsageStats now None None d = getUsageStats now None (Some ''today'') d"
    by (simp add: getUsageStats_ok)
  from ok sum exact fmt per other none show ?thesis by blast
qed

theorem getUsageStats_summary_witness:
  "''month'' \<notin> {''today'', ''yesterday'', ''week'', ''all''} \<and>
   getUsageStats 50000 None (Some ''month'') store_two_days =
     Inr \<lparr>apps =
            [\<lparr>appName = ''Safari'', totalSeconds = 23, sessionCount = 1, totalTime = ''23s'',
              percentage = 100\<rparr>],
          stats_totalTime = ''23s'', stats_totalSeconds = 23, period = ''month''\<rparr> \<and>
   (23::int) = sum_list [23] \<and>
   getUsageStats 50000 None (Some ''today'') store_two_days =
     Inr \<lparr>apps =
            [\<lparr>appName = ''Safari'', totalSeconds = 23, sessionCount = 1, totalTime = ''23s'',
              percentage = 100\<rparr>],
          stats_totalTime = ''23s'', stats_totalSeconds = 23, period = ''today''\<rparr>"
proof -
  let ?r = "\<lparr>apps =
            [\<lparr>appName = ''Safari'', totalSeconds = 23, sessionCount = 1, totalTime = ''23s'',
              percentage = 100\<rparr>],
          stats_totalTime = ''23s'', stats_totalSeconds = 23, period = ''month''\<rparr>"
  have e: "getUsageStats 50000 None (Some ''month'') store_two_days = Inr ?r"
    by (simp add: getUsageStats_ok store_two_days_def period_where_month run_query_def
        group_by_app_name_def order_by_total_seconds_desc_def Let_def js_row_def
        to_double_small js_add_small formatDuration_small percentage_of_23_23)
  have n: "''month'' \<notin> {''today'', ''yesterday'', ''week'', ''all''}" by simp
  from getUsageStats_summary [of 50000 "''month''" store_two_days] obtain r
    where r: "getUsageStats 50000 None (Some ''month'') store_two_days = Inr r"
      and x: "(\<forall>a \<in> set (apps r). 0 \<le> totalSeconds a) \<and>
        sum_list (map totalSeconds (apps r)) < 2 ^ 53 \<longrightarrow>
          stats_totalSeconds r = sum_list (map totalSeconds (apps r))"
      and t: "''month'' \<notin> {''today'', ''yesterday'', ''week'', ''all''} \<longrightarrow>
          getUsageStats 50000 None (Some ''today'') store_two_days = Inr (r\<lparr>period := ''today''\<rparr>)"
    by blast
  from r e have re: "r = ?r" by simp
  from x have "(23::int) = sum_list [23]" by (simp add: re)
  with e t n show ?thesis by (simp add: re)
qed

section \<open>Formatting durations\<close>

text \<open>
  C8. For an integer \<open>seconds \<ge> 0\<close> that a double holds exactly (below \<open>2^53\<close>), with
  \<open>h = \<lfloor>seconds / 3600\<rfloor>\<close>, \<open>m = \<lfloor>(seconds mod 3600) / 60\<rfloor>\<close> and \<open>s = seconds mod 60\<close>
  written in decimal, \<open>formatDuration\<close> gives \<open>"{h}h {m}m {s}s"\<close> when \<open>h > 0\<close>,
  \<open>"{m}m {s}s"\<close> when \<open>h = 0\<close> and \<open>m > 0\<close>, and \<open>"{s}s"\<close> otherwise; so 0 gives \<open>"0s"\<close>,
  65 gives \<open>"1m 5s"\<close> and 3661 gives \<open>"1h 1m 1s"\<close>.
\<close>

theorem formatDuration_spec:
  "(0 \<le> seconds \<and> seconds < 2 ^ 53 \<longrightarrow>
     formatDuration seconds =
       (if seconds div 3600 > 0 then
          digits (nat (seconds div 3600)) @ ''h '' @
          digits (nat (seconds mod 3600 div 60)) @ ''m '' @
          digits (nat (seconds mod 60)) @ ''s''
        else if seconds mod 3600 div 60 > 0 then
          digits (nat (seconds mod 3600 div 60)) @ ''m '' @ digits (nat (seconds mod 60)) @ ''s''
        else digits (nat (seconds mod 60)) @ ''s'')) \<and>
   formatDuration 0 = ''0s'' \<and> formatDuration 65 = ''1m 5s'' \<and>
   formatDuration 3661 = ''1h 1m 1s''"
proof (intro conjI impI)
  assume "0 \<le> seconds \<and> seconds < 2 ^ 53"
  then show "formatDuration seconds =
       (if seconds div 3600 > 0 then
          digits (nat (seconds div 3600)) @ ''h '' @
          digits (nat (seconds mod 3600 div 60)) @ ''m '' @
          digits (nat (seconds mod 60)) @ ''s''
        else if seconds mod 3600 div 60 > 0 then
          digits (nat (seconds mod 3600 div 60)) @ ''m '' @ digits (nat (seconds mod 60)) @ ''s''
        else digits (nat (seconds mod 60)) @ ''s'')"
    by (intro formatDuration_safe) simp_all
next
  show "formatDuration 0 = ''0s''"
    by (simp add: formatDuration_safe digits.simps digit_char_def)
next
  show "formatDuration 65 = ''1m 5s''"
    by (simp add: formatDuration_safe digits.simps digit_char_def)
next
  show "formatDuration 3661 = ''1h 1m 1s''"
    by (simp add: formatDuration_safe digits.simps digit_char_def)
qed

theorem formatDuration_spec_witness:
  "(0::int) \<le> 45296 \<and> (45296::int) < 2 ^ 53 \<and> formatDuration 45296 = ''12h 34m 56s''"
  using formatDuration_spec [of 45296] by (simp add: digits.simps digit_char_def)

end
